theory Spec2Isabelle
  imports Main "HOL-Library.Word" "HOL-Library.Multiset"
begin

section \<open>The compiled CRT program\<close>

text \<open>
  An instruction does \<open>A = B + I*(C - B) mod M\<close>.  Big integers (\<open>fmpz\<close>) are \<open>int\<close>;
  the \<open>slong\<close> slot indices are \<open>int\<close> as well, since a negative \<open>b_idx\<close> or \<open>c_idx\<close>
  encodes "input number \<open>-1 - idx\<close>".  The instruction array \<open>prog[0..length)\<close> is a
  list, so \<open>length\<close> is the length of the list and \<open>alloc\<close> (capacity only) is left out.
\<close>

record crt_prog_instr =
  a_idx :: int
  b_idx :: int
  c_idx :: int
  idem :: int
  modulus :: int

record fmpz_crt =
  prog :: "crt_prog_instr list"
  localsize :: int
  temp1loc :: int
  temp2loc :: int
  good :: bool

record index_deg_pair =
  idx :: nat
  degree :: "64 word"

datatype crt_error = Out_of_bounds | Division_by_zero

definition fmpz_crt_init :: fmpz_crt where
  "fmpz_crt_init =
     \<lparr>prog = [], localsize = 1, temp1loc = 0, temp2loc = 0, good = False\<rparr>"

definition fmpz_crt_set_length :: "fmpz_crt \<Rightarrow> nat \<Rightarrow> fmpz_crt" where
  "fmpz_crt_set_length P k = P\<lparr>prog := take k (prog P)\<rparr>"

subsection \<open>Big-integer primitives used by the CRT code\<close>

text \<open>
  Modelled from the spec: the big-integer primitive \<open>bits\<close> (bit-length) is not part of
  the sources at hand.  It is the number of binary digits of the absolute value, returned
  in an unsigned 64-bit \<open>mp_bitcnt_t\<close>.
\<close>

fun bit_count :: "nat \<Rightarrow> nat" where
  "bit_count n = (if n = 0 then 0 else Suc (bit_count (n div 2)))"

declare bit_count.simps [simp del]

definition fmpz_bits :: "int \<Rightarrow> 64 word" where
  "fmpz_bits m = of_nat (bit_count (nat \<bar>m\<bar>))"

text \<open>
  Modelled from the spec: the big-integer primitive \<open>invmod\<close> is not part of the sources
  at hand.  \<open>I \<leftarrow> M_left\<^sup>-\<^sup>1 mod M_right\<close>, failing when no inverse exists: the result is
  the least \<open>x\<close> in \<open>[0, |h|)\<close> with \<open>g * x \<equiv> 1 (mod h)\<close>, and \<open>None\<close> when there is none.
\<close>

definition fmpz_invmod :: "int \<Rightarrow> int \<Rightarrow> int option" where
  "fmpz_invmod g h = find (\<lambda>x. (g * x) mod \<bar>h\<bar> = 1 mod \<bar>h\<bar>) [0..\<bar>h\<bar> - 1]"

text \<open>
  Modelled from the spec: the big-integer primitive \<open>mods\<close> (least absolute residue) is
  not part of the sources at hand.  It returns the residue of \<open>g\<close> modulo \<open>h\<close> of smallest
  absolute value, the positive one when there are two.
\<close>

definition fmpz_mods :: "int \<Rightarrow> int \<Rightarrow> int" where
  "fmpz_mods g h = (let r = g mod \<bar>h\<bar> in if \<bar>h\<bar> < 2 * r then r - \<bar>h\<bar> else r)"

subsection \<open>Compiling: \<open>_push_prog\<close> and \<open>fmpz_crt_precompute_p\<close>\<close>

definition degree_sum :: "index_deg_pair list \<Rightarrow> nat \<Rightarrow> nat \<Rightarrow> 64 word" where
  "degree_sum perm i j = (\<Sum>k\<leftarrow>[i..<j]. degree (perm ! k))"

text \<open>The balancing loop of \<open>_push_prog\<close>; it returns the final \<open>mid\<close>.\<close>

function balance ::
  "index_deg_pair list \<Rightarrow> nat \<Rightarrow> nat \<Rightarrow> 64 word \<Rightarrow> 64 word \<Rightarrow> nat" where
  "balance perm stop mid lefttot righttot =
     (if lefttot < righttot \<and> mid + 1 < stop \<and> degree (perm ! mid) < righttot - lefttot
      then balance perm stop (mid + 1)
             (lefttot + degree (perm ! mid)) (righttot - degree (perm ! mid))
      else mid)"
  by pat_completeness auto
termination
  by (relation "measure (\<lambda>(perm, stop, mid, lefttot, righttot). stop - mid)") auto

declare balance.simps [simp del]

definition split_point :: "index_deg_pair list \<Rightarrow> nat \<Rightarrow> nat \<Rightarrow> nat" where
  "split_point perm start stop =
     (let mid = start + (stop - start) div 2
      in balance perm stop mid (degree_sum perm start mid) (degree_sum perm mid stop))"

text \<open>
  The tail of \<open>_push_prog\<close> ("compile [start, end)"): the zero check, then one more
  instruction.  When \<open>fmpz_invmod\<close> fails the library leaves its output unspecified; the
  model keeps the freshly initialised 0 there.  Such an instruction is never run, since
  the caller clears a program that is not good.
\<close>

definition push_instr ::
  "fmpz_crt \<Rightarrow> int \<Rightarrow> int \<Rightarrow> int \<Rightarrow> int \<Rightarrow> int \<Rightarrow> int \<times> fmpz_crt" where
  "push_instr P ret_idx b c leftmodulus rightmodulus =
     (if leftmodulus = 0 \<or> rightmodulus = 0 then (- 1, P\<lparr>good := False\<rparr>)
      else
        let i = length (prog P);
            w = (if good P then fmpz_invmod leftmodulus rightmodulus else None);
            ins = \<lparr>a_idx = ret_idx, b_idx = b, c_idx = c,
                   idem = leftmodulus * (case w of Some x \<Rightarrow> x | None \<Rightarrow> 0),
                   modulus = leftmodulus * rightmodulus\<rparr>
        in (int i, P\<lparr>prog := prog P @ [ins], good := (good P \<and> w \<noteq> None)\<rparr>))"

lemma balance_bounds:
  "mid \<le> balance perm stop mid l r \<and> (balance perm stop mid l r = mid \<or> balance perm stop mid l r < stop)"
proof (induction perm stop mid l r rule: balance.induct)
  case (1 perm stop mid lefttot righttot)
  show ?case
  proof (cases "lefttot < righttot \<and> mid + 1 < stop \<and> degree (perm ! mid) < righttot - lefttot")
    case True
    with 1 show ?thesis by (subst (1 2 3) balance.simps) auto
  next
    case False
    then show ?thesis by (subst (1 2 3) balance.simps) auto
  qed
qed

lemma split_point_bounds:
  assumes "start + 1 < stop"
  shows "start < split_point perm start stop" and "split_point perm start stop < stop"
proof -
  let ?mid = "start + (stop - start) div 2"
  let ?b = "balance perm stop ?mid (degree_sum perm start ?mid) (degree_sum perm ?mid stop)"
  have m: "start < ?mid" "?mid < stop" using assms by auto
  have b: "?mid \<le> ?b \<and> (?b = ?mid \<or> ?b < stop)" by (rule balance_bounds)
  have e: "split_point perm start stop = ?b" by (simp add: split_point_def Let_def)
  show "start < split_point perm start stop" unfolding e using m b by linarith
  show "split_point perm start stop < stop" unfolding e using m b by linarith
qed

lemma split_point_left: "start + 1 < split_point perm start stop \<Longrightarrow> split_point perm start stop < stop"
proof -
  assume a: "start + 1 < split_point perm start stop"
  let ?mid = "start + (stop - start) div 2"
  let ?b = "balance perm stop ?mid (degree_sum perm start ?mid) (degree_sum perm ?mid stop)"
  have b: "?mid \<le> ?b \<and> (?b = ?mid \<or> ?b < stop)" by (rule balance_bounds)
  have e: "split_point perm start stop = ?b" by (simp add: split_point_def Let_def)
  have "?mid < stop \<or> ?mid = start" by auto
  with a b show ?thesis unfolding e by linarith
qed

lemma split_point_right: "split_point perm start stop + 1 < stop \<Longrightarrow> start < split_point perm start stop"
proof -
  assume a: "split_point perm start stop + 1 < stop"
  let ?mid = "start + (stop - start) div 2"
  let ?b = "balance perm stop ?mid (degree_sum perm start ?mid) (degree_sum perm ?mid stop)"
  have b: "?mid \<le> ?b" using balance_bounds by blast
  have e: "split_point perm start stop = ?b" by (simp add: split_point_def Let_def)
  have "start < ?mid \<or> stop \<le> start + 1" by auto
  with a b show ?thesis unfolding e by linarith
qed

text \<open>
  \<open>_push_prog\<close>: combine all moduli in \<open>[start, stop)\<close>; the program \<open>P\<close> is threaded through
  and the index of the instruction that computes the result is returned (\<open>-1\<close> on failure).
\<close>

function push_prog ::
  "fmpz_crt \<Rightarrow> int list \<Rightarrow> index_deg_pair list \<Rightarrow> int \<Rightarrow> nat \<Rightarrow> nat \<Rightarrow> int \<times> fmpz_crt" where
  "push_prog P moduli perm ret_idx start stop =
     (let mid = split_point perm start stop;
          P1 = P\<lparr>localsize := max (localsize P) (1 + ret_idx)\<rparr>;
          left =
            (if start + 1 < mid
             then (case push_prog P1 moduli perm (ret_idx + 1) start mid of
                     (leftret, P2) \<Rightarrow>
                       if \<not> good P2 then Inl P2
                       else Inr (ret_idx + 1, modulus (prog P2 ! nat leftret), P2))
             else Inr (- 1 - int (idx (perm ! start)), moduli ! idx (perm ! start), P1))
      in case left of
           Inl P2 \<Rightarrow> (- 1, P2)
         | Inr (b, leftmodulus, P2) \<Rightarrow>
             (let right =
                (if mid + 1 < stop
                 then (case push_prog P2 moduli perm (ret_idx + 2) mid stop of
                         (rightret, P3) \<Rightarrow>
                           if \<not> good P3 then Inl P3
                           else Inr (ret_idx + 2, modulus (prog P3 ! nat rightret), P3))
                 else Inr (- 1 - int (idx (perm ! mid)), moduli ! idx (perm ! mid), P2))
              in case right of
                   Inl P3 \<Rightarrow> (- 1, P3)
                 | Inr (c, rightmodulus, P3) \<Rightarrow>
                     push_instr P3 ret_idx b c leftmodulus rightmodulus))"
  by pat_completeness auto
termination
proof (relation "measure (\<lambda>(P, moduli, perm, ret_idx, start, stop). stop - start)")
  show "wf (measure (\<lambda>(P, moduli, perm, ret_idx, start, stop). stop - start))" by simp
next
  fix P :: fmpz_crt and moduli :: "int list" and perm and ret_idx :: int and start stop mid P1
  assume "mid = split_point perm start stop" and "start + 1 < mid"
  then show "((P1, moduli, perm, ret_idx + 1, start, mid), P, moduli, perm, ret_idx, start, stop)
      \<in> measure (\<lambda>(P, moduli, perm, ret_idx, start, stop). stop - start)"
    using split_point_left [of start perm stop] by simp
next
  fix P :: fmpz_crt and moduli :: "int list" and perm and ret_idx :: int and start stop mid P2
  assume "mid = split_point perm start stop" and "mid + 1 < stop"
  then show "((P2, moduli, perm, ret_idx + 2, mid, stop), P, moduli, perm, ret_idx, start, stop)
      \<in> measure (\<lambda>(P, moduli, perm, ret_idx, start, stop). stop - start)"
    using split_point_right [of perm start stop] by simp
qed

declare push_prog.simps [simp del]

text \<open>
  \<open>qsort\<close> is the C library's: it returns the pairs in ascending order of \<open>degree\<close>
  and promises nothing about the order of equal keys.  The precomputation therefore takes
  the sorting routine as a parameter; \<open>qsort_spec\<close> is all that is known of it.
\<close>

definition qsort_spec :: "(index_deg_pair list \<Rightarrow> index_deg_pair list) \<Rightarrow> bool" where
  "qsort_spec srt \<longleftrightarrow> (\<forall>xs. mset (srt xs) = mset xs \<and> sorted (map degree (srt xs)))"

text \<open>
  \<open>fmpz_crt_precompute_p\<close>.  The assertion \<open>len > 0\<close> is compiled out of a release
  build, where \<open>len = 0\<close> reads \<open>moduli[0]\<close> out of bounds.
\<close>

definition fmpz_crt_precompute_p ::
  "(index_deg_pair list \<Rightarrow> index_deg_pair list) \<Rightarrow> fmpz_crt \<Rightarrow> int list
     \<Rightarrow> crt_error + (bool \<times> fmpz_crt)" where
  "fmpz_crt_precompute_p srt P moduli =
     (if moduli = [] then Inl Out_of_bounds
      else
        let len = length moduli;
            perm = srt (map (\<lambda>i. \<lparr>idx = i, degree = fmpz_bits (moduli ! i)\<rparr>) [0..<len]);
            P0 = (fmpz_crt_set_length P 0)\<lparr>localsize := 1, good := True\<rparr>;
            P1 = (if 1 < len then snd (push_prog P0 moduli perm 0 0 len)
                  else P0\<lparr>prog := [\<lparr>a_idx = 0, b_idx = - 1, c_idx = - 1, idem = 0,
                                      modulus = moduli ! 0\<rparr>],
                          good := (moduli ! 0 \<noteq> 0)\<rparr>);
            P2 = (if \<not> good P1 then fmpz_crt_set_length P1 0 else P1);
            P3 = P2\<lparr>temp1loc := localsize P2, localsize := localsize P2 + 1\<rparr>;
            P4 = P3\<lparr>temp2loc := localsize P3, localsize := localsize P3 + 1\<rparr>
        in Inr (good P4, P4))"

subsection \<open>Running: \<open>_fmpz_crt_run_p\<close>\<close>

text \<open>
  \<open>outputs\<close> is the caller's scratch array and \<open>inputs\<close> the array of residues.  The two
  temporaries are slots of \<open>outputs\<close> too, so every read below is a read of the array as it
  is at that moment, in the order of the four big-integer calls of the loop body.  An
  access outside either array is undefined behaviour in C and \<open>Out_of_bounds\<close> here; a zero
  modulus makes \<open>fmpz_mods\<close> raise.
\<close>

definition slot_ok :: "int \<Rightarrow> nat \<Rightarrow> bool" where
  "slot_ok a n \<longleftrightarrow> 0 \<le> a \<and> nat a < n"

definition operand_ok :: "int \<Rightarrow> nat \<Rightarrow> nat \<Rightarrow> bool" where
  "operand_ok b n_out n_in \<longleftrightarrow> (if b < 0 then nat (- b - 1) < n_in else nat b < n_out)"

definition operand :: "int list \<Rightarrow> int list \<Rightarrow> int \<Rightarrow> int" where
  "operand outputs inputs b = (if b < 0 then inputs ! nat (- b - 1) else outputs ! nat b)"

definition crt_run_instr ::
  "int \<Rightarrow> int \<Rightarrow> int list \<Rightarrow> crt_prog_instr \<Rightarrow> int list \<Rightarrow> crt_error + int list" where
  "crt_run_instr t1 t2 inputs ins outputs =
     (if \<not> (slot_ok t1 (length outputs) \<and> slot_ok t2 (length outputs)
             \<and> slot_ok (a_idx ins) (length outputs)
             \<and> operand_ok (b_idx ins) (length outputs) (length inputs)
             \<and> operand_ok (c_idx ins) (length outputs) (length inputs))
      then Inl Out_of_bounds
      else if modulus ins = 0 then Inl Division_by_zero
      else
        let o1 = outputs[nat t1 := operand outputs inputs (b_idx ins)
                                     - operand outputs inputs (c_idx ins)];
            o2 = o1[nat t2 := idem ins * o1 ! nat t1];
            o3 = o2[nat t1 := operand o2 inputs (b_idx ins) - o2 ! nat t2];
            o4 = o3[nat (a_idx ins) := fmpz_mods (o3 ! nat t1) (modulus ins)]
        in Inr o4)"

fun crt_run_loop ::
  "int \<Rightarrow> int \<Rightarrow> int list \<Rightarrow> crt_prog_instr list \<Rightarrow> int list \<Rightarrow> crt_error + int list" where
  "crt_run_loop t1 t2 inputs [] outputs = Inr outputs"
| "crt_run_loop t1 t2 inputs (ins # rest) outputs =
     (case crt_run_instr t1 t2 inputs ins outputs of
        Inl e \<Rightarrow> Inl e
      | Inr outputs' \<Rightarrow> crt_run_loop t1 t2 inputs rest outputs')"

definition fmpz_crt_run_p :: "int list \<Rightarrow> fmpz_crt \<Rightarrow> int list \<Rightarrow> crt_error + int list" where
  "fmpz_crt_run_p outputs P inputs =
     crt_run_loop (temp1loc P) (temp2loc P) inputs (prog P) outputs"

section \<open>The tree behind a compiled program\<close>

text \<open>
  \<open>_push_prog\<close> splits a range of the sorted moduli in two, compiles each half and joins
  them with one instruction.  The shape of that recursion is a binary tree whose leaves are
  input indices; \<open>split_tree\<close> rebuilds it with the split points of the source, and the
  functions on trees say what the compiler emits for it.  They are the vocabulary of the
  properties below; the link to the source is \<open>push_prog_tree\<close>.
\<close>

datatype crt_tree = Leaf nat | Node crt_tree crt_tree

function split_tree :: "index_deg_pair list \<Rightarrow> nat \<Rightarrow> nat \<Rightarrow> crt_tree" where
  "split_tree perm start stop =
     (let mid = split_point perm start stop
      in Node (if start + 1 < mid then split_tree perm start mid else Leaf (idx (perm ! start)))
              (if mid + 1 < stop then split_tree perm mid stop else Leaf (idx (perm ! mid))))"
  by pat_completeness auto
termination
proof (relation "measure (\<lambda>(perm, start, stop). stop - start)")
  show "wf (measure (\<lambda>(perm, start, stop). stop - start))" by simp
next
  fix perm start stop mid
  assume "mid = split_point perm start stop" and "start + 1 < mid"
  then show "((perm, start, mid), perm, start, stop) \<in> measure (\<lambda>(perm, start, stop). stop - start)"
    using split_point_left [of start perm stop] by simp
next
  fix perm start stop mid
  assume "mid = split_point perm start stop" and "mid + 1 < stop"
  then show "((perm, mid, stop), perm, start, stop) \<in> measure (\<lambda>(perm, start, stop). stop - start)"
    using split_point_right [of perm start stop] by simp
qed

declare split_tree.simps [simp del]


fun leaves :: "crt_tree \<Rightarrow> nat list" where
  "leaves (Leaf i) = [i]"
| "leaves (Node l r) = leaves l @ leaves r"

fun tree_modulus :: "int list \<Rightarrow> crt_tree \<Rightarrow> int" where
  "tree_modulus moduli (Leaf i) = moduli ! i"
| "tree_modulus moduli (Node l r) = tree_modulus moduli l * tree_modulus moduli r"

fun tree_good :: "int list \<Rightarrow> crt_tree \<Rightarrow> bool" where
  "tree_good moduli (Leaf i) = True"
| "tree_good moduli (Node l r) =
     (tree_good moduli l \<and> tree_good moduli r
      \<and> tree_modulus moduli l \<noteq> 0 \<and> tree_modulus moduli r \<noteq> 0
      \<and> fmpz_invmod (tree_modulus moduli l) (tree_modulus moduli r) \<noteq> None)"

fun tree_operand :: "int \<Rightarrow> crt_tree \<Rightarrow> int" where
  "tree_operand s (Leaf i) = - 1 - int i"
| "tree_operand s (Node l r) = s"

fun tree_instrs :: "int list \<Rightarrow> int \<Rightarrow> crt_tree \<Rightarrow> crt_prog_instr list" where
  "tree_instrs moduli ret_idx (Leaf i) = []"
| "tree_instrs moduli ret_idx (Node l r) =
     tree_instrs moduli (ret_idx + 1) l @ tree_instrs moduli (ret_idx + 2) r @
     [\<lparr>a_idx = ret_idx, b_idx = tree_operand (ret_idx + 1) l, c_idx = tree_operand (ret_idx + 2) r,
       idem = tree_modulus moduli l
                * the (fmpz_invmod (tree_modulus moduli l) (tree_modulus moduli r)),
       modulus = tree_modulus moduli l * tree_modulus moduli r\<rparr>]"

fun tree_localsize :: "int \<Rightarrow> int \<Rightarrow> crt_tree \<Rightarrow> int" where
  "tree_localsize ls ret_idx (Leaf i) = ls"
| "tree_localsize ls ret_idx (Node l r) =
     tree_localsize (tree_localsize (max ls (1 + ret_idx)) (ret_idx + 1) l) (ret_idx + 2) r"

definition is_node :: "crt_tree \<Rightarrow> bool" where
  "is_node t \<longleftrightarrow> (case t of Leaf i \<Rightarrow> False | Node l r \<Rightarrow> True)"

lemma split_tree_is_node: "is_node (split_tree perm start stop)"
  by (subst split_tree.simps) (simp add: Let_def is_node_def)

lemma tree_instrs_last:
  assumes "is_node t"
  shows "tree_instrs moduli r t \<noteq> []"
    and "modulus (last (tree_instrs moduli r t)) = tree_modulus moduli t"
    and "a_idx (last (tree_instrs moduli r t)) = r"
  using assms by (cases t; simp add: is_node_def)+

lemma push_prog_unfold:
  "push_prog P moduli perm ret_idx start stop =
     (case (if start + 1 < split_point perm start stop
             then (case push_prog (P\<lparr>localsize := max (localsize P) (1 + ret_idx)\<rparr>) moduli perm (ret_idx + 1) start (split_point perm start stop) of
                     (leftret, P2) \<Rightarrow>
                       if \<not> good P2 then Inl P2
                       else Inr (ret_idx + 1, modulus (prog P2 ! nat leftret), P2))
             else Inr (- 1 - int (idx (perm ! start)), moduli ! idx (perm ! start), P\<lparr>localsize := max (localsize P) (1 + ret_idx)\<rparr>)) of
           Inl P2 \<Rightarrow> (- 1, P2)
         | Inr (b, leftmodulus, P2) \<Rightarrow>
             (case (if split_point perm start stop + 1 < stop
                 then (case push_prog P2 moduli perm (ret_idx + 2) (split_point perm start stop) stop of
                         (rightret, P3) \<Rightarrow>
                           if \<not> good P3 then Inl P3
                           else Inr (ret_idx + 2, modulus (prog P3 ! nat rightret), P3))
                 else Inr (- 1 - int (idx (perm ! split_point perm start stop)), moduli ! idx (perm ! split_point perm start stop), P2)) of
                   Inl P3 \<Rightarrow> (- 1, P3)
                 | Inr (c, rightmodulus, P3) \<Rightarrow>
                     push_instr P3 ret_idx b c leftmodulus rightmodulus))"
  by (subst push_prog.simps, unfold Let_def, rule refl)

definition compiled :: "fmpz_crt \<Rightarrow> int list \<Rightarrow> int \<Rightarrow> crt_tree \<Rightarrow> fmpz_crt" where
  "compiled P moduli ret_idx t =
     P\<lparr>prog := prog P @ tree_instrs moduli ret_idx t,
       localsize := tree_localsize (localsize P) ret_idx t\<rparr>"

lemma compiled_simps [simp]:
  "prog (compiled P moduli r t) = prog P @ tree_instrs moduli r t"
  "localsize (compiled P moduli r t) = tree_localsize (localsize P) r t"
  "good (compiled P moduli r t) = good P"
  "temp1loc (compiled P moduli r t) = temp1loc P"
  "temp2loc (compiled P moduli r t) = temp2loc P"
  by (simp_all add: compiled_def)

lemma push_prog_tree:
  "good P \<Longrightarrow>
   good (snd (push_prog P moduli perm ret_idx start stop))
     = tree_good moduli (split_tree perm start stop)
   \<and> (tree_good moduli (split_tree perm start stop) \<longrightarrow>
        snd (push_prog P moduli perm ret_idx start stop)
          = compiled P moduli ret_idx (split_tree perm start stop)
        \<and> fst (push_prog P moduli perm ret_idx start stop)
          = int (length (prog (snd (push_prog P moduli perm ret_idx start stop)))) - 1)"
proof (induction P moduli perm ret_idx start stop rule: push_prog.induct)
  case (1 P moduli perm ret_idx start stop)
  define mid where "mid = split_point perm start stop"
  define P1 where "P1 = P\<lparr>localsize := max (localsize P) (1 + ret_idx)\<rparr>"
  define lt where "lt = (if start + 1 < mid then split_tree perm start mid else Leaf (idx (perm ! start)))"
  define rt where "rt = (if mid + 1 < stop then split_tree perm mid stop else Leaf (idx (perm ! mid)))"
  have t: "split_tree perm start stop = Node lt rt"
    by (subst split_tree.simps) (simp add: Let_def mid_def lt_def rt_def)
  have gP1: "good P1" using "1.prems" by (simp add: P1_def)
  define left where "left =
    (if start + 1 < mid
     then case push_prog P1 moduli perm (ret_idx + 1) start mid of
            (leftret, P2) \<Rightarrow>
              if \<not> good P2 then Inl P2
              else Inr (ret_idx + 1, modulus (prog P2 ! nat leftret), P2)
     else Inr (- 1 - int (idx (perm ! start)), moduli ! idx (perm ! start), P1))"
  have L: "(\<not> tree_good moduli lt \<and> (\<exists>P2. left = Inl P2 \<and> \<not> good P2))
         \<or> (tree_good moduli lt
            \<and> left = Inr (tree_operand (ret_idx + 1) lt, tree_modulus moduli lt,
                          compiled P1 moduli (ret_idx + 1) lt))"
  proof (cases "start + 1 < mid")
    case True
    obtain leftret P2 where r: "push_prog P1 moduli perm (ret_idx + 1) start mid = (leftret, P2)"
      by (cases "push_prog P1 moduli perm (ret_idx + 1) start mid")
    have lt': "lt = split_tree perm start mid" using True by (simp add: lt_def)
    note ih = "1.IH"(1) [OF mid_def P1_def True gP1, unfolded r, folded lt', simplified]
    show ?thesis
    proof (cases "tree_good moduli lt")
      case g: True
      with ih gP1 have P2: "P2 = compiled P1 moduli (ret_idx + 1) lt"
        and lr: "leftret = int (length (prog P2)) - 1" and g2: "good P2" by simp_all
      have nd: "is_node lt" unfolding lt' by (rule split_tree_is_node)
      have "prog P2 ! nat leftret = last (prog P2)"
        using tree_instrs_last(1) [OF nd, of moduli "ret_idx + 1"]
        by (simp add: lr P2 last_conv_nth nat_diff_distrib' flip: of_nat_add)
      then have "modulus (prog P2 ! nat leftret) = tree_modulus moduli lt"
        using tree_instrs_last [OF nd, of moduli "ret_idx + 1"] by (simp add: P2)
      moreover have "tree_operand (ret_idx + 1) lt = ret_idx + 1"
        using nd by (cases lt) (simp_all add: is_node_def)
      ultimately show ?thesis using g g2 gP1 True by (simp add: left_def r P2)
    next
      case False
      with ih have "\<not> good P2" by simp
      with False True show ?thesis by (simp add: left_def r)
    qed
  next
    case False
    then show ?thesis by (simp add: left_def lt_def compiled_def)
  qed
  have unf: "push_prog P moduli perm ret_idx start stop =
     (case left of
           Inl P2 \<Rightarrow> (- 1, P2)
         | Inr (b, leftmodulus, P2) \<Rightarrow>
             (case (if mid + 1 < stop
                 then (case push_prog P2 moduli perm (ret_idx + 2) mid stop of
                         (rightret, P3) \<Rightarrow>
                           if \<not> good P3 then Inl P3
                           else Inr (ret_idx + 2, modulus (prog P3 ! nat rightret), P3))
                 else Inr (- 1 - int (idx (perm ! mid)), moduli ! idx (perm ! mid), P2)) of
                   Inl P3 \<Rightarrow> (- 1, P3)
                 | Inr (c, rightmodulus, P3) \<Rightarrow>
                     push_instr P3 ret_idx b c leftmodulus rightmodulus))"
    unfolding left_def mid_def P1_def by (rule push_prog_unfold)
  from L show ?case
  proof
    assume "\<not> tree_good moduli lt \<and> (\<exists>P2. left = Inl P2 \<and> \<not> good P2)"
    then show ?thesis by (auto simp: unf t)
  next
    assume a: "tree_good moduli lt
            \<and> left = Inr (tree_operand (ret_idx + 1) lt, tree_modulus moduli lt,
                          compiled P1 moduli (ret_idx + 1) lt)"
    define P2 where "P2 = compiled P1 moduli (ret_idx + 1) lt"
    have gl: "tree_good moduli lt"
      and le: "left = Inr (tree_operand (ret_idx + 1) lt, tree_modulus moduli lt, P2)"
      using a by (simp_all add: P2_def)
    have gP2: "good P2" using gP1 by (simp add: P2_def)
    define right where "right =
      (if mid + 1 < stop
       then (case push_prog P2 moduli perm (ret_idx + 2) mid stop of
               (rightret, P3) \<Rightarrow>
                 if \<not> good P3 then Inl P3
                 else Inr (ret_idx + 2, modulus (prog P3 ! nat rightret), P3))
       else Inr (- 1 - int (idx (perm ! mid)), moduli ! idx (perm ! mid), P2))"
    have R: "(\<not> tree_good moduli rt \<and> (\<exists>P3. right = Inl P3 \<and> \<not> good P3))
         \<or> (tree_good moduli rt
            \<and> right = Inr (tree_operand (ret_idx + 2) rt, tree_modulus moduli rt,
                          compiled P2 moduli (ret_idx + 2) rt))"
    proof (cases "mid + 1 < stop")
      case True
      obtain rightret P3 where r: "push_prog P2 moduli perm (ret_idx + 2) mid stop = (rightret, P3)"
        by (cases "push_prog P2 moduli perm (ret_idx + 2) mid stop")
      have rt': "rt = split_tree perm mid stop" using True by (simp add: rt_def)
      note ih = "1.IH"(2) [OF mid_def P1_def left_def le refl refl True gP2, unfolded r, folded rt', simplified]
      show ?thesis
      proof (cases "tree_good moduli rt")
        case g: True
        with ih gP2 have P3: "P3 = compiled P2 moduli (ret_idx + 2) rt"
          and lr: "rightret = int (length (prog P3)) - 1" and g3: "good P3" by simp_all
        have nd: "is_node rt" unfolding rt' by (rule split_tree_is_node)
        have "prog P3 ! nat rightret = last (prog P3)"
          using tree_instrs_last(1) [OF nd, of moduli "ret_idx + 2"]
          by (simp add: lr P3 last_conv_nth nat_diff_distrib' flip: of_nat_add)
        then have "modulus (prog P3 ! nat rightret) = tree_modulus moduli rt"
          using tree_instrs_last [OF nd, of moduli "ret_idx + 2"] by (simp add: P3)
        moreover have "tree_operand (ret_idx + 2) rt = ret_idx + 2"
          using nd by (cases rt) (simp_all add: is_node_def)
        ultimately show ?thesis using g g3 gP2 True by (simp add: right_def r P3)
      next
        case False
        with ih have "\<not> good P3" by simp
        with False True show ?thesis by (simp add: right_def r)
      qed
    next
      case False
      then show ?thesis by (simp add: right_def rt_def compiled_def)
    qed
    have unf2: "push_prog P moduli perm ret_idx start stop =
       (case right of
          Inl P3 \<Rightarrow> (- 1, P3)
        | Inr (c, rightmodulus, P3) \<Rightarrow>
            push_instr P3 ret_idx (tree_operand (ret_idx + 1) lt) c (tree_modulus moduli lt) rightmodulus)"
      by (simp add: unf le right_def)
    from R show ?thesis
    proof
      assume "\<not> tree_good moduli rt \<and> (\<exists>P3. right = Inl P3 \<and> \<not> good P3)"
      then show ?thesis by (auto simp: unf2 t)
    next
      assume b: "tree_good moduli rt
            \<and> right = Inr (tree_operand (ret_idx + 2) rt, tree_modulus moduli rt,
                          compiled P2 moduli (ret_idx + 2) rt)"
      define P3 where "P3 = compiled P2 moduli (ret_idx + 2) rt"
      have gP3: "good P3" using gP2 by (simp add: P3_def)
      have unf3: "push_prog P moduli perm ret_idx start stop =
          push_instr P3 ret_idx (tree_operand (ret_idx + 1) lt) (tree_operand (ret_idx + 2) rt)
             (tree_modulus moduli lt) (tree_modulus moduli rt)"
        using b by (simp add: unf2 P3_def)
      show ?thesis
        using gl b gP3
        by (auto simp: unf3 t push_instr_def Let_def P3_def P2_def P1_def compiled_def)
    qed
  qed
qed


lemma leaves_split_tree:
  "start + 1 < stop \<Longrightarrow>
   leaves (split_tree perm start stop) = map (\<lambda>k. idx (perm ! k)) [start..<stop]"
proof (induction perm start stop rule: split_tree.induct)
  case (1 perm start stop)
  define mid where "mid = split_point perm start stop"
  have b: "start < mid" "mid < stop"
    using split_point_bounds [OF "1.prems", of perm] by (simp_all add: mid_def)
  have l: "leaves (if start + 1 < mid then split_tree perm start mid else Leaf (idx (perm ! start)))
             = map (\<lambda>k. idx (perm ! k)) [start..<mid]"
  proof (cases "start + 1 < mid")
    case True
    with "1.IH"(1) [OF mid_def True] show ?thesis by simp
  next
    case False
    with b have "mid = Suc start" by simp
    then show ?thesis by simp
  qed
  have r: "leaves (if mid + 1 < stop then split_tree perm mid stop else Leaf (idx (perm ! mid)))
             = map (\<lambda>k. idx (perm ! k)) [mid..<stop]"
  proof (cases "mid + 1 < stop")
    case True
    with "1.IH"(2) [OF mid_def True] show ?thesis by simp
  next
    case False
    with b have "stop = Suc mid" by simp
    then show ?thesis by simp
  qed
  have u: "[start..<stop] = [start..<mid] @ [mid..<stop]"
    using b upt_add_eq_append [of start mid "stop - mid"] by simp
  have "split_tree perm start stop =
      Node (if start + 1 < mid then split_tree perm start mid else Leaf (idx (perm ! start)))
           (if mid + 1 < stop then split_tree perm mid stop else Leaf (idx (perm ! mid)))"
    by (subst split_tree.simps) (simp only: Let_def flip: mid_def)
  then have "leaves (split_tree perm start stop)
      = map (\<lambda>k. idx (perm ! k)) [start..<mid] @ map (\<lambda>k. idx (perm ! k)) [mid..<stop]"
    by (simp only: leaves.simps l r)
  then show ?case by (simp add: u)
qed

lemma leaves_nonempty: "0 < length (leaves t)"
  by (induction t) simp_all

lemma length_tree_instrs: "length (tree_instrs moduli r t) = length (leaves t) - 1"
proof (induction t arbitrary: r)
  case (Leaf i)
  show ?case by simp
next
  case (Node l rt)
  have "0 < length (leaves l)" "0 < length (leaves rt)"
    by (rule leaves_nonempty)+
  then show ?case by (simp add: Node del: length_greater_0_conv)
qed

lemma tree_modulus_prod: "tree_modulus moduli t = prod_list (map (\<lambda>i. moduli ! i) (leaves t))"
  by (induction t) simp_all

lemma leaf_dvd_tree_modulus: "i \<in> set (leaves t) \<Longrightarrow> moduli ! i dvd tree_modulus moduli t"
  by (induction t) auto

lemma fmpz_invmod_Some:
  assumes "fmpz_invmod g h = Some x"
  shows "(g * x) mod \<bar>h\<bar> = 1 mod \<bar>h\<bar>"
proof -
  have "P y" if "find P xs = Some y" for P :: "int \<Rightarrow> bool" and xs y
    using that by (induction xs) (auto split: if_splits)
  from this [OF assms [unfolded fmpz_invmod_def]] show ?thesis .
qed

lemma fmpz_invmod_dvd:
  assumes "fmpz_invmod g h = Some x"
  shows "h dvd g * x - 1"
proof -
  have "\<bar>h\<bar> dvd g * x - 1"
    using fmpz_invmod_Some [OF assms] by (simp add: mod_eq_dvd_iff)
  then show ?thesis by simp
qed

lemma fmpz_invmod_coprime:
  assumes "fmpz_invmod g h = Some x"
  shows "coprime g h"
proof (rule coprimeI)
  fix d assume d: "d dvd g" "d dvd h"
  from d(2) fmpz_invmod_dvd [OF assms] have "d dvd g * x - 1" by (rule dvd_trans)
  moreover from d(1) have "d dvd g * x" by simp
  ultimately have "d dvd g * x - (g * x - 1)" by (rule dvd_diff [rotated])
  then show "is_unit d" by simp
qed

lemma tree_good_coprime:
  "tree_good moduli t \<Longrightarrow>
   sorted_wrt (\<lambda>i j. coprime (moduli ! i) (moduli ! j)) (leaves t)"
proof (induction t)
  case (Leaf i)
  show ?case by simp
next
  case (Node l r)
  from Node.prems obtain x where x: "fmpz_invmod (tree_modulus moduli l) (tree_modulus moduli r) = Some x"
    by auto
  have c: "coprime (tree_modulus moduli l) (tree_modulus moduli r)"
    using x by (rule fmpz_invmod_coprime)
  have "coprime (moduli ! i) (moduli ! j)" if "i \<in> set (leaves l)" "j \<in> set (leaves r)" for i j
    using c leaf_dvd_tree_modulus [OF that(1), of moduli] leaf_dvd_tree_modulus [OF that(2), of moduli]
    by (rule coprime_divisors [rotated 2])
  with Node show ?case by (simp add: sorted_wrt_append)
qed

lemma tree_good_nonzero:
  assumes "tree_good moduli t" and "is_node t" and "i \<in> set (leaves t)"
  shows "moduli ! i \<noteq> 0"
proof -
  from assms(1,2) have "tree_modulus moduli t \<noteq> 0"
    by (cases t) (simp_all add: is_node_def)
  with leaf_dvd_tree_modulus [OF assms(3), of moduli] show ?thesis by auto
qed

text \<open>What is known of the sorted permutation.\<close>

definition initial_perm :: "int list \<Rightarrow> index_deg_pair list" where
  "initial_perm moduli = map (\<lambda>i. \<lparr>idx = i, degree = fmpz_bits (moduli ! i)\<rparr>) [0..<length moduli]"

lemma sorted_perm_mset:
  assumes "qsort_spec srt"
  shows "mset (map idx (srt (initial_perm moduli))) = mset [0..<length moduli]"
proof -
  have "mset (srt (initial_perm moduli)) = mset (initial_perm moduli)"
    using assms by (simp add: qsort_spec_def)
  then have "mset (map idx (srt (initial_perm moduli))) = mset (map idx (initial_perm moduli))"
    using mset_map [of idx "srt (initial_perm moduli)"] mset_map [of idx "initial_perm moduli"]
    by (simp only:)
  moreover have "map idx (initial_perm moduli) = [0..<length moduli]"
    by (simp add: initial_perm_def comp_def)
  ultimately show ?thesis by simp
qed

lemma sorted_perm_facts:
  assumes "qsort_spec srt"
  shows "length (srt (initial_perm moduli)) = length moduli"
    and "set (map idx (srt (initial_perm moduli))) = {0..<length moduli}"
    and "distinct (map idx (srt (initial_perm moduli)))"
proof -
  note m = sorted_perm_mset [OF assms, of moduli]
  from m have "size (mset (map idx (srt (initial_perm moduli)))) = size (mset [0..<length moduli])"
    by simp
  then show "length (srt (initial_perm moduli)) = length moduli" by simp
  from m have "set_mset (mset (map idx (srt (initial_perm moduli)))) = set_mset (mset [0..<length moduli])"
    by simp
  then show "set (map idx (srt (initial_perm moduli))) = {0..<length moduli}" by simp
  from m show "distinct (map idx (srt (initial_perm moduli)))"
    by (metis distinct_upt mset_eq_imp_distinct_iff)
qed

lemma top_leaves:
  assumes "qsort_spec srt" and "1 < length moduli"
  shows "leaves (split_tree (srt (initial_perm moduli)) 0 (length moduli))
           = map idx (srt (initial_perm moduli))"
proof -
  let ?perm = "srt (initial_perm moduli)"
  have len: "length ?perm = length moduli" using assms(1) by (rule sorted_perm_facts)
  have "leaves (split_tree ?perm 0 (length moduli)) = map (\<lambda>k. idx (?perm ! k)) [0..<length moduli]"
    using assms(2) by (intro leaves_split_tree) simp
  also have "\<dots> = map idx (map (\<lambda>k. ?perm ! k) [0..<length ?perm])"
    by (simp add: len)
  also have "\<dots> = map idx ?perm"
    by (simp only: map_nth)
  finally show ?thesis .
qed

definition crt_core ::
  "(index_deg_pair list \<Rightarrow> index_deg_pair list) \<Rightarrow> fmpz_crt \<Rightarrow> int list \<Rightarrow> fmpz_crt" where
  "crt_core srt P moduli =
     (if 1 < length moduli
      then snd (push_prog (P\<lparr>prog := [], localsize := 1, good := True\<rparr>) moduli
                  (srt (initial_perm moduli)) 0 0 (length moduli))
      else P\<lparr>prog := [\<lparr>a_idx = 0, b_idx = - 1, c_idx = - 1, idem = 0, modulus = moduli ! 0\<rparr>],
             localsize := 1, good := (moduli ! 0 \<noteq> 0)\<rparr>)"

lemma precompute_unfold:
  assumes "moduli \<noteq> []"
  shows "fmpz_crt_precompute_p srt P moduli =
     (let P1 = crt_core srt P moduli;
          P2 = (if \<not> good P1 then P1\<lparr>prog := []\<rparr> else P1)
      in Inr (good P2, P2\<lparr>temp1loc := localsize P2, temp2loc := localsize P2 + 1,
                            localsize := localsize P2 + 2\<rparr>))"
  using assms
  by (simp add: fmpz_crt_precompute_p_def crt_core_def Let_def fmpz_crt_set_length_def
        initial_perm_def)

lemma precompute_bad:
  assumes "moduli \<noteq> []" and "\<not> good (crt_core srt P moduli)"
  shows "\<exists>P'. fmpz_crt_precompute_p srt P moduli = Inr (False, P') \<and> length (prog P') = 0"
  using assms(2) unfolding precompute_unfold [OF assms(1)] by (simp add: Let_def)

section \<open>Moduli that cannot be combined\<close>

lemma qsort_spec_sort_key: "qsort_spec (sort_key degree)"
  by (simp add: qsort_spec_def)

text \<open>
  C3.  If two of the moduli (at different positions, so there are at least two moduli) are
  not coprime, or if some modulus is zero, \<open>fmpz_crt_precompute_p\<close> returns 0 and leaves a
  program of length 0, whatever order \<open>qsort\<close> gave to moduli of equal bit count.
\<close>

theorem precompute_rejects:
  assumes "qsort_spec srt"
    and "(\<exists>i<length moduli. \<exists>j<length moduli. i \<noteq> j \<and> \<not> coprime (moduli ! i) (moduli ! j))
         \<or> 0 \<in> set moduli"
  shows "\<exists>P'. fmpz_crt_precompute_p srt P moduli = Inr (False, P') \<and> length (prog P') = 0"
proof -
  from assms(2) have ne: "moduli \<noteq> []" by auto
  define P0 where "P0 = P\<lparr>prog := [], localsize := 1, good := True\<rparr>"
  have bad: "\<not> good (crt_core srt P moduli)"
  proof (cases "1 < length moduli")
    case True
    let ?perm = "srt (initial_perm moduli)"
    let ?t = "split_tree ?perm 0 (length moduli)"
    have g: "good (crt_core srt P moduli) = tree_good moduli ?t"
      using push_prog_tree [of P0 moduli ?perm 0 0 "length moduli"] True
      by (simp add: crt_core_def P0_def)
    have lv: "leaves ?t = map idx ?perm" using assms(1) True by (rule top_leaves)
    have st: "set (leaves ?t) = {0..<length moduli}" and ds: "distinct (leaves ?t)"
      unfolding lv using sorted_perm_facts [OF assms(1), of moduli] by simp_all
    show ?thesis
    proof
      assume "good (crt_core srt P moduli)"
      with g have tg: "tree_good moduli ?t" by simp
      have nz: "moduli ! i \<noteq> 0" if "i < length moduli" for i
        using tree_good_nonzero [OF tg split_tree_is_node, of i] that st by simp
      have cp: "coprime (moduli ! i) (moduli ! j)" if "i < length moduli" "j < length moduli" "i \<noteq> j" for i j
      proof -
        from that st obtain a b where a: "a < length (leaves ?t)" "leaves ?t ! a = i"
          and b: "b < length (leaves ?t)" "leaves ?t ! b = j"
          by (metis atLeastLessThan_iff in_set_conv_nth zero_le)
        from a b that(3) have "a \<noteq> b" by auto
        then consider "a < b" | "b < a" by linarith
        then show ?thesis
        proof cases
          case 1
          from sorted_wrt_nth_less [OF tree_good_coprime [OF tg] 1 b(1)] show ?thesis
            by (simp add: a b)
        next
          case 2
          from sorted_wrt_nth_less [OF tree_good_coprime [OF tg] 2 a(1)] show ?thesis
            by (simp add: a b coprime_commute)
        qed
      qed
      from assms(2) show False
      proof
        assume "\<exists>i<length moduli. \<exists>j<length moduli. i \<noteq> j \<and> \<not> coprime (moduli ! i) (moduli ! j)"
        with cp show False by blast
      next
        assume "0 \<in> set moduli"
        with nz show False by (metis in_set_conv_nth)
      qed
    qed
  next
    case False
    with ne have l1: "length moduli = 1" by (cases moduli) auto
    from assms(2) l1 have "0 \<in> set moduli"
      by auto
    with l1 have "moduli ! 0 = 0" by (cases moduli) auto
    with False show ?thesis by (simp add: crt_core_def)
  qed
  from ne bad show ?thesis by (rule precompute_bad)
qed

theorem precompute_rejects_witness:
  "\<not> coprime (6::int) 10
   \<and> (\<exists>P'. fmpz_crt_precompute_p (sort_key degree) fmpz_crt_init [6, 10] = Inr (False, P')
            \<and> length (prog P') = 0)"
proof -
  have nc: "\<not> coprime (6::int) 10" by code_simp
  have h: "(\<exists>i<length [6, 10 :: int]. \<exists>j<length [6, 10 :: int].
              i \<noteq> j \<and> \<not> coprime ([6, 10 :: int] ! i) ([6, 10 :: int] ! j))
           \<or> 0 \<in> set [6, 10 :: int]"
  proof (rule disjI1, intro exI conjI)
    show "0 < length [6, 10 :: int]" by simp
    show "1 < length [6, 10 :: int]" by simp
    show "(0::nat) \<noteq> 1" by simp
    show "\<not> coprime ([6, 10 :: int] ! 0) ([6, 10 :: int] ! 1)" using nc by simp
  qed
  from precompute_rejects [OF qsort_spec_sort_key h, of fmpz_crt_init] nc show ?thesis by simp
qed

section \<open>Running the program of a tree\<close>

text \<open>
  \<open>tree_top\<close> is one more than the largest slot that the instructions of a tree write,
  and \<open>tree_value\<close> is the number the instructions leave in the slot of the root.
\<close>

fun tree_top :: "int \<Rightarrow> crt_tree \<Rightarrow> int" where
  "tree_top r (Leaf i) = 0"
| "tree_top r (Node l rt) = max (1 + r) (max (tree_top (r + 1) l) (tree_top (r + 2) rt))"

lemma tree_top_nonneg: "0 \<le> r \<Longrightarrow> 0 \<le> tree_top r t"
  by (induction t arbitrary: r) simp_all

lemma tree_localsize_top: "0 \<le> ls \<Longrightarrow> tree_localsize ls r t = max ls (tree_top r t)"
proof (induction t arbitrary: ls r)
  case (Leaf i)
  then show ?case by simp
next
  case (Node l rt)
  have a: "0 \<le> max ls (1 + r)" using Node.prems by simp
  have b: "0 \<le> max (max ls (1 + r)) (tree_top (r + 1) l)" using Node.prems by simp
  show ?case
    by (simp add: Node.IH(1) [OF a] Node.IH(2) [OF b])
qed

fun tree_value :: "int list \<Rightarrow> int list \<Rightarrow> crt_tree \<Rightarrow> int" where
  "tree_value moduli inputs (Leaf i) = inputs ! i"
| "tree_value moduli inputs (Node l rt) =
     (let B = tree_value moduli inputs l;
          C = tree_value moduli inputs rt;
          I = tree_modulus moduli l
                * the (fmpz_invmod (tree_modulus moduli l) (tree_modulus moduli rt))
      in fmpz_mods (B - I * (B - C)) (tree_modulus moduli l * tree_modulus moduli rt))"

lemma crt_run_loop_append:
  "crt_run_loop t1 t2 inputs (xs @ ys) outputs =
     (case crt_run_loop t1 t2 inputs xs outputs of
        Inl e \<Rightarrow> Inl e
      | Inr outs \<Rightarrow> crt_run_loop t1 t2 inputs ys outs)"
  by (induction xs arbitrary: outputs) (simp_all split: sum.splits)

lemma operand_update_other:
  "b < 0 \<or> nat b \<noteq> i \<Longrightarrow> operand (outs[i := x]) inputs b = operand outs inputs b"
  by (auto simp: operand_def)

lemma crt_run_instr_ok:
  assumes "slot_ok t1 (length outputs)" and "slot_ok t2 (length outputs)"
    and "slot_ok a (length outputs)"
    and "operand_ok b (length outputs) (length inputs)"
    and "operand_ok c (length outputs) (length inputs)"
    and "M \<noteq> 0" and "t1 \<noteq> t2" and "b \<noteq> t1" and "b \<noteq> t2"
  shows "crt_run_instr t1 t2 inputs \<lparr>a_idx = a, b_idx = b, c_idx = c, idem = I, modulus = M\<rparr> outputs
     = Inr (outputs[nat t2 := I * (operand outputs inputs b - operand outputs inputs c),
                    nat t1 := operand outputs inputs b
                                - I * (operand outputs inputs b - operand outputs inputs c),
                    nat a := fmpz_mods (operand outputs inputs b
                                - I * (operand outputs inputs b - operand outputs inputs c)) M])"
proof -
  let ?B = "operand outputs inputs b" and ?C = "operand outputs inputs c"
  have n: "nat t1 \<noteq> nat t2" "nat t1 < length outputs" "nat t2 < length outputs"
    using assms(1,2,7) by (auto simp: slot_ok_def)
  let ?o1 = "outputs[nat t1 := ?B - ?C]"
  let ?o2 = "?o1[nat t2 := I * ?o1 ! nat t1]"
  have o1: "?o1 ! nat t1 = ?B - ?C" using n by simp
  have nb: "b < 0 \<or> nat b \<noteq> nat t1" "b < 0 \<or> nat b \<noteq> nat t2"
    using assms(1,2,8,9) by (auto simp: slot_ok_def)
  have B2: "operand (outputs[nat t1 := x, nat t2 := y]) inputs b = ?B"
    "operand (outputs[nat t2 := y, nat t1 := x]) inputs b = ?B" for x y
    using nb by (simp_all add: operand_update_other)
  have o2: "?o2 ! nat t2 = I * (?B - ?C)" using n by (simp add: o1)
  let ?o3 = "?o2[nat t1 := operand ?o2 inputs b - ?o2 ! nat t2]"
  have o3: "?o3 ! nat t1 = ?B - I * (?B - ?C)" using n by (simp add: B2 o1)
  have e: "?o3 = outputs[nat t2 := I * (?B - ?C), nat t1 := ?B - I * (?B - ?C)]"
    using n by (simp add: B2 o1 list_update_swap [of "nat t1" "nat t2"])
  have "crt_run_instr t1 t2 inputs \<lparr>a_idx = a, b_idx = b, c_idx = c, idem = I, modulus = M\<rparr> outputs
      = Inr (?o3[nat a := fmpz_mods (?o3 ! nat t1) M])"
    using assms(1-6) by (simp add: crt_run_instr_def Let_def)
  then show ?thesis unfolding o3 unfolding e .
qed


lemma tree_top_node: "is_node t \<Longrightarrow> r < tree_top r t"
  by (cases t) (simp_all add: is_node_def)

lemma tree_good_modulus_nonzero: "tree_good moduli t \<Longrightarrow> is_node t \<Longrightarrow> tree_modulus moduli t \<noteq> 0"
  by (cases t) (simp_all add: is_node_def)

lemma run_tree:
  assumes "tree_good moduli t" and "0 \<le> r"
    and "tree_top r t \<le> t1" and "tree_top r t \<le> t2" and "t1 \<noteq> t2"
    and "slot_ok t1 (length outputs)" and "slot_ok t2 (length outputs)"
    and "\<forall>i\<in>set (leaves t). i < length inputs"
  shows "\<exists>outs. crt_run_loop t1 t2 inputs (tree_instrs moduli r t) outputs = Inr outs
     \<and> length outs = length outputs
     \<and> (\<forall>s. s \<noteq> nat t1 \<and> s \<noteq> nat t2 \<and> \<not> (nat r \<le> s \<and> s < nat (tree_top r t))
            \<longrightarrow> outs ! s = outputs ! s)
     \<and> (is_node t \<longrightarrow> outs ! nat r = tree_value moduli inputs t)"
  using assms
proof (induction t arbitrary: r outputs)
  case (Leaf i)
  then show ?case by (simp add: is_node_def)
next
  case (Node l rt)
  let ?top = "tree_top r (Node l rt)"
  have top: "1 + r \<le> ?top" "tree_top (r + 1) l \<le> ?top" "tree_top (r + 2) rt \<le> ?top"
    by simp_all
  have gl: "tree_good moduli l" and gr: "tree_good moduli rt"
    and ml: "tree_modulus moduli l \<noteq> 0" and mr: "tree_modulus moduli rt \<noteq> 0"
    using Node.prems(1) by simp_all
  have t1n: "0 \<le> t1" "nat t1 < length outputs" and t2n: "0 \<le> t2" "nat t2 < length outputs"
    using Node.prems(6,7) by (simp_all add: slot_ok_def)
  \<comment> \<open>the left subtree\<close>
  have "\<exists>outs. crt_run_loop t1 t2 inputs (tree_instrs moduli (r + 1) l) outputs = Inr outs
     \<and> length outs = length outputs
     \<and> (\<forall>s. s \<noteq> nat t1 \<and> s \<noteq> nat t2 \<and> \<not> (nat (r + 1) \<le> s \<and> s < nat (tree_top (r + 1) l))
            \<longrightarrow> outs ! s = outputs ! s)
     \<and> (is_node l \<longrightarrow> outs ! nat (r + 1) = tree_value moduli inputs l)"
    using Node.prems top by (intro Node.IH(1) gl) auto
  then obtain outs1 where o1: "crt_run_loop t1 t2 inputs (tree_instrs moduli (r + 1) l) outputs = Inr outs1"
    and len1: "length outs1 = length outputs"
    and fr1: "\<And>s. s \<noteq> nat t1 \<Longrightarrow> s \<noteq> nat t2 \<Longrightarrow> \<not> (nat (r + 1) \<le> s \<and> s < nat (tree_top (r + 1) l))
            \<Longrightarrow> outs1 ! s = outputs ! s"
    and v1: "is_node l \<Longrightarrow> outs1 ! nat (r + 1) = tree_value moduli inputs l"
    by blast
  \<comment> \<open>the right subtree\<close>
  have "\<exists>outs. crt_run_loop t1 t2 inputs (tree_instrs moduli (r + 2) rt) outs1 = Inr outs
     \<and> length outs = length outs1
     \<and> (\<forall>s. s \<noteq> nat t1 \<and> s \<noteq> nat t2 \<and> \<not> (nat (r + 2) \<le> s \<and> s < nat (tree_top (r + 2) rt))
            \<longrightarrow> outs ! s = outs1 ! s)
     \<and> (is_node rt \<longrightarrow> outs ! nat (r + 2) = tree_value moduli inputs rt)"
    using Node.prems top by (intro Node.IH(2) gr) (auto simp: len1)
  then obtain outs2 where o2: "crt_run_loop t1 t2 inputs (tree_instrs moduli (r + 2) rt) outs1 = Inr outs2"
    and len2: "length outs2 = length outputs"
    and fr2: "\<And>s. s \<noteq> nat t1 \<Longrightarrow> s \<noteq> nat t2 \<Longrightarrow> \<not> (nat (r + 2) \<le> s \<and> s < nat (tree_top (r + 2) rt))
            \<Longrightarrow> outs2 ! s = outs1 ! s"
    and v2: "is_node rt \<Longrightarrow> outs2 ! nat (r + 2) = tree_value moduli inputs rt"
    using len1 by auto
  \<comment> \<open>the operands of the joining instruction\<close>
  let ?b = "tree_operand (r + 1) l" and ?c = "tree_operand (r + 2) rt"
  have bl: "?b < 0 \<or> (?b = r + 1 \<and> is_node l)" by (cases l) (simp_all add: is_node_def)
  have cl: "?c < 0 \<or> (?c = r + 2 \<and> is_node rt)" by (cases rt) (simp_all add: is_node_def)
  have r1: "r + 1 < t1" "r + 1 < t2" if "is_node l"
    using tree_top_node [OF that, of "r + 1"] top(2) Node.prems(3,4) by linarith+
  have r2: "r + 2 < t1" "r + 2 < t2" if "is_node rt"
    using tree_top_node [OF that, of "r + 2"] top(3) Node.prems(3,4) by linarith+
  have r0: "r < t1" "r < t2" using top(1) Node.prems(3,4) by linarith+
  have Bv: "operand outs2 inputs ?b = tree_value moduli inputs l"
  proof (cases l)
    case (Leaf i)
    then show ?thesis by (simp add: operand_def)
  next
    case (Node x y)
    then have nd: "is_node l" by (simp add: is_node_def)
    have "outs2 ! nat (r + 1) = outs1 ! nat (r + 1)"
      using r1 [OF nd] Node.prems(2) t1n t2n by (intro fr2) auto
    with v1 [OF nd] Node Node.prems(2) show ?thesis by (simp add: operand_def)
  qed
  have Cv: "operand outs2 inputs ?c = tree_value moduli inputs rt"
  proof (cases rt)
    case (Leaf i)
    then show ?thesis by (simp add: operand_def)
  next
    case (Node x y)
    then have nd: "is_node rt" by (simp add: is_node_def)
    from v2 [OF nd] Node Node.prems(2) show ?thesis by (simp add: operand_def)
  qed
  have okb: "operand_ok ?b (length outs2) (length inputs)"
  proof (cases l)
    case (Leaf i)
    with Node.prems(8) show ?thesis by (simp add: operand_ok_def)
  next
    case (Node x y)
    then have nd: "is_node l" by (simp add: is_node_def)
    from r1 [OF nd] Node Node.prems(2) t1n show ?thesis by (simp add: operand_ok_def len2)
  qed
  have okc: "operand_ok ?c (length outs2) (length inputs)"
  proof (cases rt)
    case (Leaf i)
    with Node.prems(8) show ?thesis by (simp add: operand_ok_def)
  next
    case (Node x y)
    then have nd: "is_node rt" by (simp add: is_node_def)
    from r2 [OF nd] Node Node.prems(2) t1n show ?thesis by (simp add: operand_ok_def len2)
  qed
  have oka: "slot_ok r (length outs2)"
    using r0 Node.prems(2) t1n by (simp add: slot_ok_def len2)
  have bt: "?b \<noteq> t1" "?b \<noteq> t2" using bl r1 t1n t2n by auto
  let ?I = "tree_modulus moduli l * the (fmpz_invmod (tree_modulus moduli l) (tree_modulus moduli rt))"
  let ?M = "tree_modulus moduli l * tree_modulus moduli rt"
  let ?ins = "\<lparr>a_idx = r, b_idx = ?b, c_idx = ?c, idem = ?I, modulus = ?M\<rparr>"
  let ?x = "tree_value moduli inputs l - ?I * (tree_value moduli inputs l - tree_value moduli inputs rt)"
  define outs3 where "outs3 = outs2[nat t2 := ?I * (tree_value moduli inputs l - tree_value moduli inputs rt),
                    nat t1 := ?x, nat r := fmpz_mods ?x ?M]"
  have o3: "crt_run_instr t1 t2 inputs ?ins outs2 = Inr outs3"
    using crt_run_instr_ok [of t1 outs2 t2 r ?b inputs ?c ?M ?I] Node.prems(5-7) okb okc oka bt ml mr
    by (simp add: len2 Bv Cv outs3_def)
  have run: "crt_run_loop t1 t2 inputs (tree_instrs moduli r (Node l rt)) outputs = Inr outs3"
    by (simp add: crt_run_loop_append o1 o2 o3)
  have len3: "length outs3 = length outputs" by (simp add: outs3_def len2)
  have val: "outs3 ! nat r = tree_value moduli inputs (Node l rt)"
    using oka by (simp add: outs3_def slot_ok_def Let_def)
  have frame: "outs3 ! s = outputs ! s"
    if "s \<noteq> nat t1" "s \<noteq> nat t2" "\<not> (nat r \<le> s \<and> s < nat ?top)" for s
  proof -
    from that(3) top(1) Node.prems(2) have sr: "s \<noteq> nat r" by auto
    have "outs3 ! s = outs2 ! s" using that(1,2) sr by (simp add: outs3_def)
    also have "\<dots> = outs1 ! s"
      using that top(3) Node.prems(2) by (intro fr2) auto
    also have "\<dots> = outputs ! s"
      using that top(2) Node.prems(2) by (intro fr1) auto
    finally show ?thesis .
  qed
  show ?case using run len3 val frame by blast
qed

section \<open>What a compiled program computes\<close>

lemma fmpz_mods_dvd: "h dvd fmpz_mods g h - g"
proof -
  have a: "\<bar>h\<bar> dvd g mod \<bar>h\<bar> - g"
    using dvd_minus_mod [of "\<bar>h\<bar>" g] by (simp add: dvd_diff_commute)
  have "\<bar>h\<bar> dvd (g mod \<bar>h\<bar> - g) - \<bar>h\<bar>"
    using a by (rule dvd_diff) simp
  then have b: "\<bar>h\<bar> dvd g mod \<bar>h\<bar> - \<bar>h\<bar> - g"
    by (simp add: algebra_simps)
  from a b have "\<bar>h\<bar> dvd fmpz_mods g h - g"
    by (simp add: fmpz_mods_def Let_def)
  then show ?thesis by simp
qed

lemma fmpz_mods_range:
  assumes "h \<noteq> 0"
  shows "- \<bar>h\<bar> < 2 * fmpz_mods g h \<and> 2 * fmpz_mods g h \<le> \<bar>h\<bar>"
proof -
  have "0 \<le> g mod \<bar>h\<bar>" "g mod \<bar>h\<bar> < \<bar>h\<bar>" using assms by simp_all
  then show ?thesis by (auto simp: fmpz_mods_def Let_def)
qed

lemma tree_value_cong:
  "tree_good moduli t \<Longrightarrow> i \<in> set (leaves t) \<Longrightarrow>
   moduli ! i dvd tree_value moduli inputs t - inputs ! i"
proof (induction t)
  case (Leaf j)
  then show ?case by simp
next
  case (Node l rt)
  define Ml where "Ml = tree_modulus moduli l"
  define Mr where "Mr = tree_modulus moduli rt"
  define B where "B = tree_value moduli inputs l"
  define C where "C = tree_value moduli inputs rt"
  from Node.prems(1) obtain x where x: "fmpz_invmod Ml Mr = Some x" by (auto simp: Ml_def Mr_def)
  define I where "I = Ml * x"
  define v where "v = tree_value moduli inputs (Node l rt)"
  have v: "v = fmpz_mods (B - I * (B - C)) (Ml * Mr)"
    using x by (simp add: v_def Let_def Ml_def Mr_def B_def C_def I_def)
  have d: "Ml * Mr dvd v - (B - I * (B - C))" unfolding v by (rule fmpz_mods_dvd)
  have gl: "tree_good moduli l" and gr: "tree_good moduli rt" using Node.prems(1) by simp_all
  from Node.prems(2) consider "i \<in> set (leaves l)" | "i \<in> set (leaves rt)" by auto
  then have "moduli ! i dvd v - inputs ! i"
  proof cases
    case 1
    have m: "moduli ! i dvd Ml" unfolding Ml_def using 1 by (rule leaf_dvd_tree_modulus)
    have p1: "moduli ! i dvd B - inputs ! i" unfolding B_def using gl 1 by (rule Node.IH(1))
    have "Ml dvd Ml * Mr" by simp
    with m have "moduli ! i dvd Ml * Mr" by (rule dvd_trans)
    then have p2: "moduli ! i dvd v - (B - I * (B - C))" using d by (rule dvd_trans)
    have "Ml dvd I * (B - C)" by (simp add: I_def)
    with m have p3: "moduli ! i dvd I * (B - C)" by (rule dvd_trans)
    have "moduli ! i dvd (v - (B - I * (B - C))) - I * (B - C)" using p2 p3 by (rule dvd_diff)
    then have "moduli ! i dvd ((v - (B - I * (B - C))) - I * (B - C)) + (B - inputs ! i)"
      using p1 by (rule dvd_add)
    moreover have "((v - (B - I * (B - C))) - I * (B - C)) + (B - inputs ! i) = v - inputs ! i"
      by simp
    ultimately show ?thesis by simp
  next
    case 2
    have m: "moduli ! i dvd Mr" unfolding Mr_def using 2 by (rule leaf_dvd_tree_modulus)
    have p1: "moduli ! i dvd C - inputs ! i" unfolding C_def using gr 2 by (rule Node.IH(2))
    have "Mr dvd Ml * Mr" by simp
    with m have "moduli ! i dvd Ml * Mr" by (rule dvd_trans)
    then have p2: "moduli ! i dvd v - (B - I * (B - C))" using d by (rule dvd_trans)
    have "Mr dvd I - 1" unfolding I_def using x by (rule fmpz_invmod_dvd)
    then have "Mr dvd (I - 1) * (B - C)" by simp
    with m have p3: "moduli ! i dvd (I - 1) * (B - C)" by (rule dvd_trans)
    have "moduli ! i dvd (v - (B - I * (B - C))) - (I - 1) * (B - C)" using p2 p3 by (rule dvd_diff)
    then have "moduli ! i dvd ((v - (B - I * (B - C))) - (I - 1) * (B - C)) + (C - inputs ! i)"
      using p1 by (rule dvd_add)
    moreover have "((v - (B - I * (B - C))) - (I - 1) * (B - C)) + (C - inputs ! i) = v - inputs ! i"
      by (simp add: algebra_simps)
    ultimately show ?thesis by simp
  qed
  then show ?case by (simp only: v_def)
qed

lemma tree_value_range:
  assumes "tree_good moduli t" and "is_node t"
  shows "- \<bar>tree_modulus moduli t\<bar> < 2 * tree_value moduli inputs t
         \<and> 2 * tree_value moduli inputs t \<le> \<bar>tree_modulus moduli t\<bar>"
proof (cases t)
  case (Leaf i)
  with assms(2) show ?thesis by (simp add: is_node_def)
next
  case (Node l rt)
  with assms(1) have "tree_modulus moduli l * tree_modulus moduli rt \<noteq> 0" by simp
  from fmpz_mods_range [OF this] show ?thesis unfolding Node by (simp add: Let_def)
qed

lemma tree_instrs_slots:
  "ins \<in> set (tree_instrs moduli r t) \<Longrightarrow> 0 \<le> r \<Longrightarrow>
   r \<le> a_idx ins \<and> a_idx ins < tree_top r t
   \<and> b_idx ins < tree_top r t \<and> c_idx ins < tree_top r t
   \<and> (b_idx ins < 0 \<longrightarrow> nat (- b_idx ins - 1) \<in> set (leaves t))
   \<and> (c_idx ins < 0 \<longrightarrow> nat (- c_idx ins - 1) \<in> set (leaves t))
   \<and> (0 \<le> b_idx ins \<longrightarrow> r < b_idx ins) \<and> (0 \<le> c_idx ins \<longrightarrow> r < c_idx ins)"
proof (induction t arbitrary: r)
  case (Leaf i)
  then show ?case by simp
next
  case (Node l rt)
  have bl: "tree_operand (r + 1) l < tree_top r (Node l rt)
      \<and> (tree_operand (r + 1) l < 0 \<longrightarrow> nat (- tree_operand (r + 1) l - 1) \<in> set (leaves l))
      \<and> (0 \<le> tree_operand (r + 1) l \<longrightarrow> r < tree_operand (r + 1) l)"
    using Node.prems(2) by (cases l) auto
  have cl: "tree_operand (r + 2) rt < tree_top r (Node l rt)
      \<and> (tree_operand (r + 2) rt < 0 \<longrightarrow> nat (- tree_operand (r + 2) rt - 1) \<in> set (leaves rt))
      \<and> (0 \<le> tree_operand (r + 2) rt \<longrightarrow> r < tree_operand (r + 2) rt)"
    using Node.prems(2) by (cases rt) auto
  from Node.prems(1) consider "ins \<in> set (tree_instrs moduli (r + 1) l)"
    | "ins \<in> set (tree_instrs moduli (r + 2) rt)"
    | "ins = \<lparr>a_idx = r, b_idx = tree_operand (r + 1) l, c_idx = tree_operand (r + 2) rt,
         idem = tree_modulus moduli l * the (fmpz_invmod (tree_modulus moduli l) (tree_modulus moduli rt)),
         modulus = tree_modulus moduli l * tree_modulus moduli rt\<rparr>"
    by auto
  then show ?case
  proof cases
    case 1
    from Node.IH(1) [OF 1] Node.prems(2) show ?thesis by auto
  next
    case 2
    from Node.IH(2) [OF 2] Node.prems(2) show ?thesis by auto
  next
    case 3
    with bl cl Node.prems(2) show ?thesis by auto
  qed
qed


lemma precompute_good_core:
  assumes "fmpz_crt_precompute_p srt P0 moduli = Inr (True, P)"
  shows "moduli \<noteq> []" and "good (crt_core srt P0 moduli)"
    and "P = (crt_core srt P0 moduli)
               \<lparr>temp1loc := localsize (crt_core srt P0 moduli),
                temp2loc := localsize (crt_core srt P0 moduli) + 1,
                localsize := localsize (crt_core srt P0 moduli) + 2\<rparr>"
proof -
  show ne: "moduli \<noteq> []" using assms by (auto simp: fmpz_crt_precompute_p_def)
  from assms show g: "good (crt_core srt P0 moduli)"
    unfolding precompute_unfold [OF ne] by (auto simp: Let_def split: if_splits)
  from assms g show "P = (crt_core srt P0 moduli)
               \<lparr>temp1loc := localsize (crt_core srt P0 moduli),
                temp2loc := localsize (crt_core srt P0 moduli) + 1,
                localsize := localsize (crt_core srt P0 moduli) + 2\<rparr>"
    unfolding precompute_unfold [OF ne] by (auto simp: Let_def)
qed

lemma precompute_good_many:
  assumes "fmpz_crt_precompute_p srt P0 moduli = Inr (True, P)" and "1 < length moduli"
  shows "tree_good moduli (split_tree (srt (initial_perm moduli)) 0 (length moduli))"
    and "prog P = tree_instrs moduli 0 (split_tree (srt (initial_perm moduli)) 0 (length moduli))"
    and "temp1loc P = tree_top 0 (split_tree (srt (initial_perm moduli)) 0 (length moduli))"
    and "temp2loc P = tree_top 0 (split_tree (srt (initial_perm moduli)) 0 (length moduli)) + 1"
    and "localsize P = tree_top 0 (split_tree (srt (initial_perm moduli)) 0 (length moduli)) + 2"
proof -
  let ?t = "split_tree (srt (initial_perm moduli)) 0 (length moduli)"
  let ?P00 = "P0\<lparr>prog := [], localsize := 1, good := True\<rparr>"
  note c = precompute_good_core [OF assms(1)]
  have core: "crt_core srt P0 moduli = snd (push_prog ?P00 moduli (srt (initial_perm moduli)) 0 0 (length moduli))"
    using assms(2) by (simp add: crt_core_def)
  note pp = push_prog_tree [of ?P00 moduli "srt (initial_perm moduli)" 0 0 "length moduli", folded core]
  from pp c(2) show tg: "tree_good moduli ?t" by simp
  with pp have e: "crt_core srt P0 moduli = compiled ?P00 moduli 0 ?t" by simp
  have "0 < tree_top 0 ?t" using tree_top_node [OF split_tree_is_node] .
  then have ls: "tree_localsize 1 0 ?t = tree_top 0 ?t" by (simp add: tree_localsize_top)
  show "prog P = tree_instrs moduli 0 ?t" by (subst c(3)) (simp add: e)
  show "temp1loc P = tree_top 0 ?t" by (subst c(3)) (simp add: e ls)
  show "temp2loc P = tree_top 0 ?t + 1" by (subst c(3)) (simp add: e ls)
  show "localsize P = tree_top 0 ?t + 2" by (subst c(3)) (simp add: e ls)
qed

lemma precompute_good_one:
  assumes "fmpz_crt_precompute_p srt P0 moduli = Inr (True, P)" and "\<not> 1 < length moduli"
  shows "length moduli = 1" and "moduli ! 0 \<noteq> 0"
    and "prog P = [\<lparr>a_idx = 0, b_idx = - 1, c_idx = - 1, idem = 0, modulus = moduli ! 0\<rparr>]"
    and "temp1loc P = 1" and "temp2loc P = 2" and "localsize P = 3"
proof -
  note c = precompute_good_core [OF assms(1)]
  from c(1) assms(2) show "length moduli = 1" by (cases moduli) auto
  have core: "crt_core srt P0 moduli =
      P0\<lparr>prog := [\<lparr>a_idx = 0, b_idx = - 1, c_idx = - 1, idem = 0, modulus = moduli ! 0\<rparr>],
         localsize := 1, good := (moduli ! 0 \<noteq> 0)\<rparr>"
    using assms(2) by (simp add: crt_core_def)
  from c(2) show "moduli ! 0 \<noteq> 0" by (simp add: core)
  show "prog P = [\<lparr>a_idx = 0, b_idx = - 1, c_idx = - 1, idem = 0, modulus = moduli ! 0\<rparr>]"
    by (subst c(3)) (simp add: core)
  show "temp1loc P = 1" by (subst c(3)) (simp add: core)
  show "temp2loc P = 2" by (subst c(3)) (simp add: core)
  show "localsize P = 3" by (subst c(3)) (simp add: core)
qed

text \<open>The number a run leaves in \<open>outputs[0]\<close>; it does not mention \<open>outputs\<close>.\<close>

definition crt_value ::
  "(index_deg_pair list \<Rightarrow> index_deg_pair list) \<Rightarrow> int list \<Rightarrow> int list \<Rightarrow> int" where
  "crt_value srt moduli inputs =
     (if 1 < length moduli
      then tree_value moduli inputs (split_tree (srt (initial_perm moduli)) 0 (length moduli))
      else fmpz_mods (inputs ! 0) (moduli ! 0))"

lemma crt_run_value:
  assumes "qsort_spec srt"
    and "fmpz_crt_precompute_p srt P0 moduli = Inr (True, P)"
    and "length inputs = length moduli"
    and "nat (localsize P) \<le> length outputs"
  shows "\<exists>outs. fmpz_crt_run_p outputs P inputs = Inr outs
           \<and> length outs = length outputs
           \<and> outs ! 0 = crt_value srt moduli inputs
           \<and> (\<forall>s. nat (localsize P) \<le> s \<longrightarrow> outs ! s = outputs ! s)"
proof (cases "1 < length moduli")
  case True
  let ?t = "split_tree (srt (initial_perm moduli)) 0 (length moduli)"
  note g = precompute_good_many [OF assms(2) True]
  have top: "0 < tree_top 0 ?t" using tree_top_node [OF split_tree_is_node] .
  have lv: "set (leaves ?t) = {0..<length moduli}"
    using top_leaves [OF assms(1) True] sorted_perm_facts(2) [OF assms(1), of moduli] by simp
  have ok: "slot_ok (tree_top 0 ?t) (length outputs)" "slot_ok (tree_top 0 ?t + 1) (length outputs)"
    using assms(4) top by (simp_all add: slot_ok_def g(5))
  have "\<exists>outs. crt_run_loop (tree_top 0 ?t) (tree_top 0 ?t + 1) inputs (tree_instrs moduli 0 ?t) outputs = Inr outs
     \<and> length outs = length outputs
     \<and> (\<forall>s. s \<noteq> nat (tree_top 0 ?t) \<and> s \<noteq> nat (tree_top 0 ?t + 1)
             \<and> \<not> (nat 0 \<le> s \<and> s < nat (tree_top 0 ?t))
            \<longrightarrow> outs ! s = outputs ! s)
     \<and> (is_node ?t \<longrightarrow> outs ! nat 0 = tree_value moduli inputs ?t)"
    using g(1) ok lv assms(3) by (intro run_tree) simp_all
  then obtain outs where r: "crt_run_loop (tree_top 0 ?t) (tree_top 0 ?t + 1) inputs (tree_instrs moduli 0 ?t) outputs = Inr outs"
    and len: "length outs = length outputs"
    and fr: "\<And>s. s \<noteq> nat (tree_top 0 ?t) \<Longrightarrow> s \<noteq> nat (tree_top 0 ?t + 1) \<Longrightarrow>
               \<not> (nat 0 \<le> s \<and> s < nat (tree_top 0 ?t)) \<Longrightarrow> outs ! s = outputs ! s"
    and v: "outs ! 0 = tree_value moduli inputs ?t"
    using split_tree_is_node [of "srt (initial_perm moduli)" 0 "length moduli"] by auto
  have "outs ! s = outputs ! s" if "nat (localsize P) \<le> s" for s
    using that top by (intro fr) (simp_all add: g(5))
  with r len v True show ?thesis
    by (auto simp: fmpz_crt_run_p_def g crt_value_def)
next
  case False
  note g = precompute_good_one [OF assms(2) False]
  have len: "1 \<le> length inputs" "3 \<le> length outputs" "0 < length outputs"
    using assms(3,4) g(1,6) by auto
  have r: "crt_run_instr 1 2 inputs \<lparr>a_idx = 0, b_idx = - 1, c_idx = - 1, idem = 0, modulus = moduli ! 0\<rparr> outputs
     = Inr (outputs[nat 2 := 0 * (operand outputs inputs (- 1) - operand outputs inputs (- 1)),
                    nat 1 := operand outputs inputs (- 1)
                                - 0 * (operand outputs inputs (- 1) - operand outputs inputs (- 1)),
                    nat 0 := fmpz_mods (operand outputs inputs (- 1)
                                - 0 * (operand outputs inputs (- 1) - operand outputs inputs (- 1))) (moduli ! 0)])"
    using len g(2) by (intro crt_run_instr_ok) (auto simp: slot_ok_def operand_ok_def)
  show ?thesis
    using len False by (simp add: fmpz_crt_run_p_def g r crt_value_def operand_def)
qed

lemma prod_list_leaves:
  assumes "qsort_spec srt" and "1 < length moduli"
  shows "tree_modulus moduli (split_tree (srt (initial_perm moduli)) 0 (length moduli)) = prod_list moduli"
proof -
  let ?t = "split_tree (srt (initial_perm moduli)) 0 (length moduli)"
  have "mset (leaves ?t) = mset [0..<length moduli]"
    using top_leaves [OF assms] sorted_perm_mset [OF assms(1), of moduli] by simp
  then have "mset (map (\<lambda>i. moduli ! i) (leaves ?t)) = mset (map (\<lambda>i. moduli ! i) [0..<length moduli])"
    using mset_map [of "\<lambda>i. moduli ! i" "leaves ?t"] mset_map [of "\<lambda>i. moduli ! i" "[0..<length moduli]"]
    by (simp only:)
  also have "map (\<lambda>i. moduli ! i) [0..<length moduli] = moduli" by (rule map_nth)
  finally have "prod_mset (mset (map (\<lambda>i. moduli ! i) (leaves ?t))) = prod_mset (mset moduli)"
    by (simp only:)
  then have "prod_list (map (\<lambda>i. moduli ! i) (leaves ?t)) = prod_list moduli"
    by (simp only: prod_mset_prod_list)
  then show ?thesis by (simp only: tree_modulus_prod)
qed

lemma crt_value_correct:
  assumes "qsort_spec srt"
    and "fmpz_crt_precompute_p srt P0 moduli = Inr (True, P)"
    and "length inputs = length moduli"
  shows "\<forall>i<length moduli. crt_value srt moduli inputs mod moduli ! i = inputs ! i mod moduli ! i"
    and "- \<bar>prod_list moduli\<bar> < 2 * crt_value srt moduli inputs"
    and "2 * crt_value srt moduli inputs \<le> \<bar>prod_list moduli\<bar>"
    and "length moduli = 1 \<longrightarrow> crt_value srt moduli inputs = fmpz_mods (inputs ! 0) (moduli ! 0)"
proof -
  show "length moduli = 1 \<longrightarrow> crt_value srt moduli inputs = fmpz_mods (inputs ! 0) (moduli ! 0)"
    by (simp add: crt_value_def)
  have "(\<forall>i<length moduli. moduli ! i dvd crt_value srt moduli inputs - inputs ! i)
        \<and> - \<bar>prod_list moduli\<bar> < 2 * crt_value srt moduli inputs
        \<and> 2 * crt_value srt moduli inputs \<le> \<bar>prod_list moduli\<bar>"
  proof (cases "1 < length moduli")
    case True
    let ?t = "split_tree (srt (initial_perm moduli)) 0 (length moduli)"
    note g = precompute_good_many [OF assms(2) True]
    have lv: "set (leaves ?t) = {0..<length moduli}"
      using top_leaves [OF assms(1) True] sorted_perm_facts(2) [OF assms(1), of moduli] by simp
    have "moduli ! i dvd tree_value moduli inputs ?t - inputs ! i" if "i < length moduli" for i
      using g(1) that lv by (intro tree_value_cong) simp_all
    moreover note tree_value_range [OF g(1) split_tree_is_node, of inputs, unfolded prod_list_leaves [OF assms(1) True]]
    ultimately show ?thesis using True by (simp add: crt_value_def)
  next
    case False
    note g = precompute_good_one [OF assms(2) False]
    have m: "moduli = [moduli ! 0]" using g(1) by (cases moduli) auto
    then have p: "prod_list moduli = moduli ! 0" by (metis list.simps(8,9) mult.right_neutral prod_list.Cons prod_list.Nil)
    show ?thesis
      using fmpz_mods_dvd [of "moduli ! 0" "inputs ! 0"] fmpz_mods_range [OF g(2), of "inputs ! 0"] False g(1)
      by (simp add: crt_value_def p)
  qed
  then show "\<forall>i<length moduli. crt_value srt moduli inputs mod moduli ! i = inputs ! i mod moduli ! i"
    and "- \<bar>prod_list moduli\<bar> < 2 * crt_value srt moduli inputs"
    and "2 * crt_value srt moduli inputs \<le> \<bar>prod_list moduli\<bar>"
    by (simp_all add: mod_eq_dvd_iff)
qed

section \<open>The result of a run\<close>

text \<open>
  C1 (as amended).  For moduli \<open>m_0, ..., m_{L-1}\<close>, \<open>L \<ge> 1\<close>, on which
  \<open>fmpz_crt_precompute_p\<close> succeeded, and inputs \<open>r_0, ..., r_{L-1}\<close>, a run on a scratch
  array of at least \<open>localsize\<close> entries ends without error and leaves in \<open>outputs[0]\<close> an
  integer \<open>r\<close> with \<open>r \<equiv> r_i (mod m_i)\<close> for all \<open>i\<close> and \<open>-|M|/2 < r \<le> |M|/2\<close>, where \<open>M\<close> is
  the product of the moduli; for \<open>L = 1\<close> it is \<open>inputs[0] mods moduli[0]\<close>.
\<close>

theorem crt_run_result:
  assumes "qsort_spec srt"
    and "fmpz_crt_precompute_p srt P0 moduli = Inr (True, P)"
    and "length inputs = length moduli"
    and "nat (localsize P) \<le> length outputs"
  shows "\<exists>outs. fmpz_crt_run_p outputs P inputs = Inr outs
     \<and> (\<forall>i<length moduli. outs ! 0 mod moduli ! i = inputs ! i mod moduli ! i)
     \<and> - \<bar>prod_list moduli\<bar> < 2 * outs ! 0 \<and> 2 * outs ! 0 \<le> \<bar>prod_list moduli\<bar>
     \<and> (length moduli = 1 \<longrightarrow> outs ! 0 = fmpz_mods (inputs ! 0) (moduli ! 0))"
proof -
  from crt_run_value [OF assms] obtain outs
    where r: "fmpz_crt_run_p outputs P inputs = Inr outs"
      and v: "outs ! 0 = crt_value srt moduli inputs"
    by blast
  from crt_value_correct [OF assms(1-3)] show ?thesis
    unfolding v [symmetric] using r by blast
qed

theorem crt_run_result_witness:
  "fmpz_crt_precompute_p (sort_key degree) fmpz_crt_init [3, 5]
     = Inr (True, \<lparr>prog = [\<lparr>a_idx = 0, b_idx = - 1, c_idx = - 2, idem = 6, modulus = 15\<rparr>],
                    localsize = 3, temp1loc = 1, temp2loc = 2, good = True\<rparr>)
   \<and> (\<exists>outs. fmpz_crt_run_p [0, 0, 0]
                 \<lparr>prog = [\<lparr>a_idx = 0, b_idx = - 1, c_idx = - 2, idem = 6, modulus = 15\<rparr>],
                   localsize = 3, temp1loc = 1, temp2loc = 2, good = True\<rparr> [2, 3] = Inr outs
          \<and> outs ! 0 mod 3 = 2 \<and> outs ! 0 mod 5 = 3
          \<and> - 15 < 2 * outs ! 0 \<and> 2 * outs ! 0 \<le> 15)"
proof -
  let ?P = "\<lparr>prog = [\<lparr>a_idx = 0, b_idx = - 1, c_idx = - 2, idem = 6, modulus = 15\<rparr>],
                   localsize = 3, temp1loc = 1, temp2loc = 2, good = True\<rparr>"
  have h: "fmpz_crt_precompute_p (sort_key degree) fmpz_crt_init [3, 5] = Inr (True, ?P)"
    by code_simp
  have l: "length [2, 3 :: int] = length [3, 5 :: int]" by simp
  have s: "nat (localsize ?P) \<le> length [0, 0, 0 :: int]" by simp
  from crt_run_result [OF qsort_spec_sort_key h l s] obtain outs
    where r: "fmpz_crt_run_p [0, 0, 0] ?P [2, 3] = Inr outs"
      and c: "\<forall>i<length [3, 5 :: int]. outs ! 0 mod [3, 5] ! i = [2, 3] ! i mod [3, 5] ! i"
      and b: "- \<bar>prod_list [3, 5 :: int]\<bar> < 2 * outs ! 0" "2 * outs ! 0 \<le> \<bar>prod_list [3, 5 :: int]\<bar>"
    by blast
  from c [rule_format, of 0] c [rule_format, of 1]
  have "outs ! 0 mod 3 = 2" "outs ! 0 mod 5 = 3" by simp_all
  with h r b show ?thesis by simp
qed

text \<open>
  The interval of the claim as first stated, \<open>(-M/2, M/2]\<close>, is empty for a negative
  product: the single modulus \<open>-3\<close> is accepted, and the run on input 1 gives 1.
\<close>

theorem crt_run_negative_modulus:
  "fmpz_crt_precompute_p (sort_key degree) fmpz_crt_init [- 3]
     = Inr (True, \<lparr>prog = [\<lparr>a_idx = 0, b_idx = - 1, c_idx = - 1, idem = 0, modulus = - 3\<rparr>],
                    localsize = 3, temp1loc = 1, temp2loc = 2, good = True\<rparr>)
   \<and> fmpz_crt_run_p [0, 0, 0]
         \<lparr>prog = [\<lparr>a_idx = 0, b_idx = - 1, c_idx = - 1, idem = 0, modulus = - 3\<rparr>],
           localsize = 3, temp1loc = 1, temp2loc = 2, good = True\<rparr> [1] = Inr [1, 1, 0]
   \<and> \<not> (- prod_list [- 3] < 2 * [1, 1, 0 :: int] ! 0
          \<and> 2 * [1, 1, 0 :: int] ! 0 \<le> prod_list [- 3])"
  by code_simp

text \<open>
  C9.  For a successfully compiled program and fixed inputs, two runs on scratch arrays of
  at least \<open>localsize\<close> entries, whatever they hold, both end without error and leave the
  same number in \<open>outputs[0]\<close>.
\<close>

theorem crt_run_scratch_independent:
  assumes "qsort_spec srt"
    and "fmpz_crt_precompute_p srt P0 moduli = Inr (True, P)"
    and "length inputs = length moduli"
    and "nat (localsize P) \<le> length outputs1"
    and "nat (localsize P) \<le> length outputs2"
  shows "\<exists>outs1 outs2. fmpz_crt_run_p outputs1 P inputs = Inr outs1
           \<and> fmpz_crt_run_p outputs2 P inputs = Inr outs2
           \<and> outs1 ! 0 = outs2 ! 0"
proof -
  from crt_run_value [OF assms(1-4)] obtain outs1
    where r1: "fmpz_crt_run_p outputs1 P inputs = Inr outs1"
      and v1: "outs1 ! 0 = crt_value srt moduli inputs"
    by blast
  from crt_run_value [OF assms(1-3,5)] obtain outs2
    where r2: "fmpz_crt_run_p outputs2 P inputs = Inr outs2"
      and v2: "outs2 ! 0 = crt_value srt moduli inputs"
    by blast
  from r1 r2 v1 v2 show ?thesis by simp
qed

theorem crt_run_scratch_independent_witness:
  "fmpz_crt_precompute_p (sort_key degree) fmpz_crt_init [7, 11, 13]
     = Inr (True, \<lparr>prog = [\<lparr>a_idx = 1, b_idx = - 1, c_idx = - 2, idem = 56, modulus = 77\<rparr>,
                           \<lparr>a_idx = 0, b_idx = 1, c_idx = - 3, idem = 924, modulus = 1001\<rparr>],
                    localsize = 4, temp1loc = 2, temp2loc = 3, good = True\<rparr>)
   \<and> (\<exists>outs1 outs2.
         fmpz_crt_run_p [0, 0, 0, 0]
           \<lparr>prog = [\<lparr>a_idx = 1, b_idx = - 1, c_idx = - 2, idem = 56, modulus = 77\<rparr>,
                    \<lparr>a_idx = 0, b_idx = 1, c_idx = - 3, idem = 924, modulus = 1001\<rparr>],
             localsize = 4, temp1loc = 2, temp2loc = 3, good = True\<rparr> [1, 2, 3] = Inr outs1
         \<and> fmpz_crt_run_p [9, 8, 7, 6, 5]
           \<lparr>prog = [\<lparr>a_idx = 1, b_idx = - 1, c_idx = - 2, idem = 56, modulus = 77\<rparr>,
                    \<lparr>a_idx = 0, b_idx = 1, c_idx = - 3, idem = 924, modulus = 1001\<rparr>],
             localsize = 4, temp1loc = 2, temp2loc = 3, good = True\<rparr> [1, 2, 3] = Inr outs2
         \<and> outs1 ! 0 = outs2 ! 0)"
proof -
  let ?P = "\<lparr>prog = [\<lparr>a_idx = 1, b_idx = - 1, c_idx = - 2, idem = 56, modulus = 77\<rparr>,
                    \<lparr>a_idx = 0, b_idx = 1, c_idx = - 3, idem = 924, modulus = 1001\<rparr>],
             localsize = 4, temp1loc = 2, temp2loc = 3, good = True\<rparr>"
  have h: "fmpz_crt_precompute_p (sort_key degree) fmpz_crt_init [7, 11, 13] = Inr (True, ?P)"
    by code_simp
  have l: "length [1, 2, 3 :: int] = length [7, 11, 13 :: int]" by simp
  have s1: "nat (localsize ?P) \<le> length [0, 0, 0, 0 :: int]" by simp
  have s2: "nat (localsize ?P) \<le> length [9, 8, 7, 6, 5 :: int]" by simp
  from h crt_run_scratch_independent [OF qsort_spec_sort_key h l s1 s2] show ?thesis
    by (rule conjI)
qed

section \<open>The shape of a compiled program\<close>

text \<open>
  C6.  A program built by a successful \<open>fmpz_crt_precompute_p\<close> on \<open>L\<close> moduli has
  \<open>max 1 (L - 1)\<close> instructions; for \<open>L = 1\<close> it is the one degenerate instruction, and
  otherwise it is the post-order of a binary tree whose leaves are the inputs \<open>0, ..., L-1\<close>,
  each once.  Its last instruction writes slot 0.  Every slot an instruction writes or
  reads is nonnegative and below \<open>localsize\<close>, every input it reads is one of the \<open>L\<close>, and so
  are the two temporaries, which differ from every \<open>a_idx\<close>.  Consequently a run on
  \<open>localsize\<close> or more scratch entries and \<open>L\<close> inputs makes no access out of bounds, and
  leaves the scratch entries from \<open>localsize\<close> on as they were.
\<close>

theorem precompute_program_shape:
  assumes "qsort_spec srt"
    and "fmpz_crt_precompute_p srt P0 moduli = Inr (True, P)"
  shows "length (prog P) = max 1 (length moduli - 1)
     \<and> ((length moduli = 1
          \<and> prog P = [\<lparr>a_idx = 0, b_idx = - 1, c_idx = - 1, idem = 0, modulus = moduli ! 0\<rparr>])
         \<or> (\<exists>t. is_node t \<and> mset (leaves t) = mset [0..<length moduli]
                 \<and> prog P = tree_instrs moduli 0 t))
     \<and> a_idx (last (prog P)) = 0
     \<and> (\<forall>ins\<in>set (prog P).
            0 \<le> a_idx ins \<and> a_idx ins < localsize P
            \<and> - int (length moduli) \<le> b_idx ins \<and> b_idx ins < localsize P
            \<and> - int (length moduli) \<le> c_idx ins \<and> c_idx ins < localsize P
            \<and> temp1loc P \<noteq> a_idx ins \<and> temp2loc P \<noteq> a_idx ins)
     \<and> 0 \<le> temp1loc P \<and> temp1loc P < localsize P
     \<and> 0 \<le> temp2loc P \<and> temp2loc P < localsize P
     \<and> (\<forall>outputs inputs.
            nat (localsize P) \<le> length outputs \<and> length inputs = length moduli \<longrightarrow>
            (\<exists>outs. fmpz_crt_run_p outputs P inputs = Inr outs
                \<and> length outs = length outputs
                \<and> (\<forall>s. nat (localsize P) \<le> s \<longrightarrow> outs ! s = outputs ! s)))"
proof -
  have run: "\<forall>outputs inputs.
            nat (localsize P) \<le> length outputs \<and> length inputs = length moduli \<longrightarrow>
            (\<exists>outs. fmpz_crt_run_p outputs P inputs = Inr outs
                \<and> length outs = length outputs
                \<and> (\<forall>s. nat (localsize P) \<le> s \<longrightarrow> outs ! s = outputs ! s))"
    using crt_run_value [OF assms] by blast
  show ?thesis
  proof (cases "1 < length moduli")
    case True
    let ?t = "split_tree (srt (initial_perm moduli)) 0 (length moduli)"
    note g = precompute_good_many [OF assms(2) True]
    have nd: "is_node ?t" by (rule split_tree_is_node)
    have ms: "mset (leaves ?t) = mset [0..<length moduli]"
      using top_leaves [OF assms(1) True] sorted_perm_mset [OF assms(1), of moduli] by simp
    then have "size (mset (leaves ?t)) = size (mset [0..<length moduli])" by (simp only:)
    then have ll: "length (leaves ?t) = length moduli" by simp
    from ms have "set_mset (mset (leaves ?t)) = set_mset (mset [0..<length moduli])" by (simp only:)
    then have st: "set (leaves ?t) = {0..<length moduli}" by simp
    have len: "length (prog P) = max 1 (length moduli - 1)"
      using True by (simp add: g(2) length_tree_instrs ll)
    have lst: "a_idx (last (prog P)) = 0"
      unfolding g(2) using nd by (rule tree_instrs_last(3))
    have top: "0 < tree_top 0 ?t" using tree_top_node [OF nd] .
    have slots: "0 \<le> a_idx ins \<and> a_idx ins < localsize P
            \<and> - int (length moduli) \<le> b_idx ins \<and> b_idx ins < localsize P
            \<and> - int (length moduli) \<le> c_idx ins \<and> c_idx ins < localsize P
            \<and> temp1loc P \<noteq> a_idx ins \<and> temp2loc P \<noteq> a_idx ins"
      if "ins \<in> set (prog P)" for ins
    proof -
      from that have "ins \<in> set (tree_instrs moduli 0 ?t)" by (simp only: g(2))
      note s = tree_instrs_slots [OF this, simplified]
      have "- int (length moduli) \<le> b_idx ins"
      proof (cases "b_idx ins < 0")
        case True
        with s have "nat (- b_idx ins - 1) \<in> set (leaves ?t)" by simp
        then have "nat (- b_idx ins - 1) < length moduli" by (simp add: st)
        then show ?thesis by linarith
      next
        case False
        then show ?thesis by linarith
      qed
      moreover have "- int (length moduli) \<le> c_idx ins"
      proof (cases "c_idx ins < 0")
        case True
        with s have "nat (- c_idx ins - 1) \<in> set (leaves ?t)" by simp
        then have "nat (- c_idx ins - 1) < length moduli" by (simp add: st)
        then show ?thesis by linarith
      next
        case False
        then show ?thesis by linarith
      qed
      ultimately show ?thesis using s by (simp add: g(3-5))
    qed
    have tr: "\<exists>t. is_node t \<and> mset (leaves t) = mset [0..<length moduli]
                 \<and> prog P = tree_instrs moduli 0 t"
      using nd ms g(2) by blast
    show ?thesis using len tr lst slots top run by (simp add: g(3-5))
  next
    case False
    note g = precompute_good_one [OF assms(2) False]
    show ?thesis using run g(1) by (simp add: g(3-6))
  qed
qed

theorem precompute_program_shape_witness:
  "fmpz_crt_precompute_p (sort_key degree) fmpz_crt_init [7, 11, 13]
     = Inr (True, \<lparr>prog = [\<lparr>a_idx = 1, b_idx = - 1, c_idx = - 2, idem = 56, modulus = 77\<rparr>,
                           \<lparr>a_idx = 0, b_idx = 1, c_idx = - 3, idem = 924, modulus = 1001\<rparr>],
                    localsize = 4, temp1loc = 2, temp2loc = 3, good = True\<rparr>)
   \<and> (\<exists>t. is_node t \<and> mset (leaves t) = mset [0..<length [7, 11, 13 :: int]]
          \<and> [\<lparr>a_idx = 1, b_idx = - 1, c_idx = - 2, idem = 56, modulus = 77\<rparr>,
              \<lparr>a_idx = 0, b_idx = 1, c_idx = - 3, idem = 924, modulus = 1001\<rparr>]
            = tree_instrs [7, 11, 13] 0 t)
   \<and> (\<exists>outs. fmpz_crt_run_p [0, 0, 0, 0]
          \<lparr>prog = [\<lparr>a_idx = 1, b_idx = - 1, c_idx = - 2, idem = 56, modulus = 77\<rparr>,
                   \<lparr>a_idx = 0, b_idx = 1, c_idx = - 3, idem = 924, modulus = 1001\<rparr>],
            localsize = 4, temp1loc = 2, temp2loc = 3, good = True\<rparr> [1, 2, 3] = Inr outs)"
proof -
  let ?P = "\<lparr>prog = [\<lparr>a_idx = 1, b_idx = - 1, c_idx = - 2, idem = 56, modulus = 77\<rparr>,
                    \<lparr>a_idx = 0, b_idx = 1, c_idx = - 3, idem = 924, modulus = 1001\<rparr>],
             localsize = 4, temp1loc = 2, temp2loc = 3, good = True\<rparr>"
  have h: "fmpz_crt_precompute_p (sort_key degree) fmpz_crt_init [7, 11, 13] = Inr (True, ?P)"
    by code_simp
  note sh = precompute_program_shape [OF qsort_spec_sort_key h]
  from sh have "(length [7, 11, 13 :: int] = 1
          \<and> prog ?P = [\<lparr>a_idx = 0, b_idx = - 1, c_idx = - 1, idem = 0, modulus = [7, 11, 13] ! 0\<rparr>])
         \<or> (\<exists>t. is_node t \<and> mset (leaves t) = mset [0..<length [7, 11, 13 :: int]]
                 \<and> prog ?P = tree_instrs [7, 11, 13] 0 t)"
    by (elim conjE)
  moreover have "length [7, 11, 13 :: int] \<noteq> 1" by simp
  ultimately have t: "\<exists>t. is_node t \<and> mset (leaves t) = mset [0..<length [7, 11, 13 :: int]]
                 \<and> prog ?P = tree_instrs [7, 11, 13] 0 t"
    by blast
  from sh have "\<forall>outputs inputs.
            nat (localsize ?P) \<le> length outputs \<and> length inputs = length [7, 11, 13 :: int] \<longrightarrow>
            (\<exists>outs. fmpz_crt_run_p outputs ?P inputs = Inr outs
                \<and> length outs = length outputs
                \<and> (\<forall>s. nat (localsize ?P) \<le> s \<longrightarrow> outs ! s = outputs ! s))"
    by (elim conjE)
  then have "nat (localsize ?P) \<le> length [0, 0, 0, 0 :: int]
           \<and> length [1, 2, 3 :: int] = length [7, 11, 13 :: int] \<longrightarrow>
        (\<exists>outs. fmpz_crt_run_p [0, 0, 0, 0] ?P [1, 2, 3] = Inr outs
                \<and> length outs = length [0, 0, 0, 0 :: int]
                \<and> (\<forall>s. nat (localsize ?P) \<le> s \<longrightarrow> outs ! s = [0, 0, 0, 0] ! s))"
    by blast
  then have r: "\<exists>outs. fmpz_crt_run_p [0, 0, 0, 0] ?P [1, 2, 3] = Inr outs"
    by auto
  have p: "prog ?P = [\<lparr>a_idx = 1, b_idx = - 1, c_idx = - 2, idem = 56, modulus = 77\<rparr>,
                    \<lparr>a_idx = 0, b_idx = 1, c_idx = - 3, idem = 924, modulus = 1001\<rparr>]"
    by simp
  from h t [unfolded p] r show ?thesis by (intro conjI)
qed

section \<open>Programs of length zero\<close>

lemma precompute_failed_prog:
  assumes "fmpz_crt_precompute_p srt P0 moduli = Inr (False, P)"
  shows "prog P = []"
proof -
  from assms have ne: "moduli \<noteq> []"
    by (auto simp: fmpz_crt_precompute_p_def)
  from assms ne show ?thesis
    by (auto simp: fmpz_crt_precompute_p_def Let_def fmpz_crt_set_length_def split: if_splits)
qed

text \<open>
  C10.  A CRT program of length 0 -- in particular the one \<open>fmpz_crt_init\<close> makes and the
  one a failed \<open>fmpz_crt_precompute_p\<close> (return value 0) leaves behind -- makes
  \<open>_fmpz_crt_run_p\<close> run no instruction: the run ends without an error whatever the sizes
  of \<open>outputs\<close> and \<open>inputs\<close> are (nothing is read) and hands back \<open>outputs\<close> as it was
  (nothing is written).
\<close>

theorem crt_run_length_zero:
  "(prog P = [] \<longrightarrow> fmpz_crt_run_p outputs P inputs = Inr outputs)
   \<and> fmpz_crt_run_p outputs fmpz_crt_init inputs = Inr outputs
   \<and> (fmpz_crt_precompute_p srt P0 moduli = Inr (False, P)
        \<longrightarrow> fmpz_crt_run_p outputs P inputs = Inr outputs)"
proof (intro conjI impI)
  assume "prog P = []"
  then show "fmpz_crt_run_p outputs P inputs = Inr outputs"
    by (simp add: fmpz_crt_run_p_def)
next
  show "fmpz_crt_run_p outputs fmpz_crt_init inputs = Inr outputs"
    by (simp add: fmpz_crt_run_p_def fmpz_crt_init_def)
next
  assume "fmpz_crt_precompute_p srt P0 moduli = Inr (False, P)"
  then have "prog P = []" by (rule precompute_failed_prog)
  then show "fmpz_crt_run_p outputs P inputs = Inr outputs"
    by (simp add: fmpz_crt_run_p_def)
qed

theorem crt_run_length_zero_witness:
  "fmpz_crt_precompute_p (sort_key degree) fmpz_crt_init [6, 10]
     = Inr (False, \<lparr>prog = [], localsize = 3, temp1loc = 1, temp2loc = 2, good = False\<rparr>)
   \<and> fmpz_crt_run_p [7, 8, 9]
         \<lparr>prog = [], localsize = 3, temp1loc = 1, temp2loc = 2, good = False\<rparr> [1, 2]
       = Inr [7, 8, 9]"
proof -
  let ?P = "\<lparr>prog = [], localsize = 3, temp1loc = 1, temp2loc = 2, good = False\<rparr>"
  have h: "fmpz_crt_precompute_p (sort_key degree) fmpz_crt_init [6, 10] = Inr (False, ?P)"
    by code_simp
  from crt_run_length_zero [of ?P "[7, 8, 9]" "[1, 2]" "sort_key degree" fmpz_crt_init "[6, 10]"]
  have "fmpz_crt_precompute_p (sort_key degree) fmpz_crt_init [6, 10] = Inr (False, ?P)
        \<longrightarrow> fmpz_crt_run_p [7, 8, 9] ?P [1, 2] = Inr [7, 8, 9]"
    by (elim conjE)
  with h show ?thesis by blast
qed

section \<open>The divisibility check of \<open>fmpz_mpolyu_gcd_brown_threaded\<close>\<close>

text \<open>
  What a join worker hands back to the orchestrator: the maximum and the sum of the absolute
  values of the coefficients it produced, for each of \<open>G\<close>, \<open>Abar\<close> and \<open>Bbar\<close>.
\<close>

record joinworker_arg =
  Gmax :: int
  Gsum :: int
  Abarmax :: int
  Abarsum :: int
  Bbarmax :: int
  Bbarsum :: int

record heights =
  gnm :: int
  gns :: int
  anm :: int
  ans :: int
  bnm :: int
  bns :: int

definition FLINT_BITS :: nat where
  "FLINT_BITS = 64"

text \<open>The loop "calculate heights": sums are added up, maxima are taken, all from 0.\<close>

definition heights_step :: "heights \<Rightarrow> joinworker_arg \<Rightarrow> heights" where
  "heights_step h w =
     \<lparr>gnm = (if gnm h < Gmax w then Gmax w else gnm h),
      gns = gns h + Gsum w,
      anm = (if anm h < Abarmax w then Abarmax w else anm h),
      ans = ans h + Abarsum w,
      bnm = (if bnm h < Bbarmax w then Bbarmax w else bnm h),
      bns = bns h + Bbarsum w\<rparr>"

definition calculate_heights :: "joinworker_arg list \<Rightarrow> heights" where
  "calculate_heights joinargs =
     foldl heights_step \<lparr>gnm = 0, gns = 0, anm = 0, ans = 0, bnm = 0, bns = 0\<rparr> joinargs"

text \<open>
  Where the orchestrator goes after a join: back to \<open>compute_split\<close> with the bound it is to
  use from then on, or to \<open>successful\<close>.
\<close>

datatype after_join = Compute_split int | Successful

text \<open>The local variable \<open>modulus\<close> of the orchestrator is written \<open>modulus'\<close> here.\<close>

definition divisibility_check :: "heights \<Rightarrow> int \<Rightarrow> int \<Rightarrow> after_join" where
  "divisibility_check h modulus' bound =
     (if modulus' \<le> bound then Compute_split bound
      else
        let ans1 = ans h * gnm h;
            anm1 = anm h * gns h;
            bns1 = bns h * gnm h;
            bnm1 = bnm h * gns h;
            (ans2, anm2) = (if ans1 > anm1 then (anm1, ans1) else (ans1, anm1));
            (bns2, bnm2) = (if bns1 > bnm1 then (bnm1, bns1) else (bns1, bnm1));
            ans3 = ans2 + ans2;
            bns3 = bns2 + bns2
        in if ans3 < modulus' \<and> bns3 < modulus' then Successful
           else Compute_split (modulus' * 2 ^ (2 * FLINT_BITS)))"

lemma calculate_heights_sums:
  "gns (foldl heights_step h ws) = gns h + sum_list (map Gsum ws)
   \<and> ans (foldl heights_step h ws) = ans h + sum_list (map Abarsum ws)
   \<and> bns (foldl heights_step h ws) = bns h + sum_list (map Bbarsum ws)"
  by (induction ws arbitrary: h) (simp_all add: heights_step_def)

lemma calculate_heights_maxima:
  "gnm (foldl heights_step h ws) = fold max (map Gmax ws) (gnm h)
   \<and> anm (foldl heights_step h ws) = fold max (map Abarmax ws) (anm h)
   \<and> bnm (foldl heights_step h ws) = fold max (map Bbarmax ws) (bnm h)"
  by (induction ws arbitrary: h) (simp_all add: heights_step_def max_def)

text \<open>
  C2.  Once the accumulated modulus exceeds the bound, the orchestrator goes to
  \<open>successful\<close> if and only if
  \<open>2 * min (Abarsum * Gmax) (Abarmax * Gsum) < modulus\<close> and
  \<open>2 * min (Bbarsum * Gmax) (Bbarmax * Gsum) < modulus\<close>, the sums and maxima being those
  gathered over the join workers; when the check fails it goes back to \<open>compute_split\<close>
  with the bound set to \<open>modulus * 2 ^ (2 * FLINT_BITS)\<close>.
\<close>

theorem divisibility_check_iff:
  assumes "bound < modulus'" and "h = calculate_heights joinargs"
  shows "(divisibility_check h modulus' bound = Successful \<longleftrightarrow>
            2 * min (ans h * gnm h) (anm h * gns h) < modulus'
            \<and> 2 * min (bns h * gnm h) (bnm h * gns h) < modulus')
         \<and> (divisibility_check h modulus' bound \<noteq> Successful \<longrightarrow>
            divisibility_check h modulus' bound = Compute_split (modulus' * 2 ^ (2 * FLINT_BITS)))
         \<and> ans h = sum_list (map Abarsum joinargs) \<and> bns h = sum_list (map Bbarsum joinargs)
         \<and> gns h = sum_list (map Gsum joinargs)
         \<and> anm h = fold max (map Abarmax joinargs) 0 \<and> bnm h = fold max (map Bbarmax joinargs) 0
         \<and> gnm h = fold max (map Gmax joinargs) 0"
proof -
  have a: "min (ans h * gnm h) (anm h * gns h)
             = fst (if ans h * gnm h > anm h * gns h
                    then (anm h * gns h, ans h * gnm h) else (ans h * gnm h, anm h * gns h))"
    by (simp add: min_def)
  have b: "min (bns h * gnm h) (bnm h * gns h)
             = fst (if bns h * gnm h > bnm h * gns h
                    then (bnm h * gns h, bns h * gnm h) else (bns h * gnm h, bnm h * gns h))"
    by (simp add: min_def)
  have chk: "divisibility_check h modulus' bound =
      (if 2 * min (ans h * gnm h) (anm h * gns h) < modulus'
          \<and> 2 * min (bns h * gnm h) (bnm h * gns h) < modulus'
       then Successful else Compute_split (modulus' * 2 ^ (2 * FLINT_BITS)))"
    using assms(1) unfolding a b
    by (simp add: divisibility_check_def Let_def split: prod.splits if_splits)
  have s: "gns h = sum_list (map Gsum joinargs)" "ans h = sum_list (map Abarsum joinargs)"
    "bns h = sum_list (map Bbarsum joinargs)"
    using calculate_heights_sums [of "\<lparr>gnm = 0, gns = 0, anm = 0, ans = 0, bnm = 0, bns = 0\<rparr>" joinargs]
    by (simp_all add: assms(2) calculate_heights_def)
  have m: "gnm h = fold max (map Gmax joinargs) 0" "anm h = fold max (map Abarmax joinargs) 0"
    "bnm h = fold max (map Bbarmax joinargs) 0"
    using calculate_heights_maxima [of "\<lparr>gnm = 0, gns = 0, anm = 0, ans = 0, bnm = 0, bns = 0\<rparr>" joinargs]
    by (simp_all add: assms(2) calculate_heights_def)
  show ?thesis using chk s m by simp
qed

theorem divisibility_check_iff_witness:
  "divisibility_check
     (calculate_heights [\<lparr>Gmax = 3, Gsum = 5, Abarmax = 2, Abarsum = 4, Bbarmax = 7, Bbarsum = 9\<rparr>])
     100 50 = Successful
   \<and> divisibility_check
     (calculate_heights [\<lparr>Gmax = 3, Gsum = 5, Abarmax = 2, Abarsum = 4, Bbarmax = 7, Bbarsum = 9\<rparr>])
     51 50 = Compute_split (51 * 2 ^ 128)"
proof -
  let ?ws = "[\<lparr>Gmax = 3, Gsum = 5, Abarmax = 2, Abarsum = 4, Bbarmax = 7, Bbarsum = 9\<rparr>]"
  have h: "calculate_heights ?ws = \<lparr>gnm = 3, gns = 5, anm = 2, ans = 4, bnm = 7, bns = 9\<rparr>"
    by (simp add: calculate_heights_def heights_step_def)
  have b1: "(50::int) < 100" and b2: "(50::int) < 51" by simp_all
  show ?thesis
    using divisibility_check_iff [OF b1 refl, of ?ws] divisibility_check_iff [OF b2 refl, of ?ws]
    by (simp add: h FLINT_BITS_def)
qed

section \<open>The zero short-circuit of \<open>fmpz_mpoly_gcd_brown_threaded\<close>\<close>

text \<open>
  A sparse polynomial is the list of its terms, leading term first; \<open>length\<close> is the
  length of the list, and the zero polynomial is the empty list.  The exponent vectors are
  of any type: the short-circuit never looks at them.
\<close>

type_synonym 'e fmpz_mpoly = "('e \<times> int) list"

definition fmpz_mpoly_is_zero :: "'e fmpz_mpoly \<Rightarrow> bool" where
  "fmpz_mpoly_is_zero A \<longleftrightarrow> length A = 0"

definition fmpz_mpoly_zero :: "'e fmpz_mpoly" where
  "fmpz_mpoly_zero = []"

definition fmpz_mpoly_neg :: "'e fmpz_mpoly \<Rightarrow> 'e fmpz_mpoly" where
  "fmpz_mpoly_neg B = map (\<lambda>(e, c). (e, - c)) B"

definition fmpz_mpoly_set :: "'e fmpz_mpoly \<Rightarrow> 'e fmpz_mpoly" where
  "fmpz_mpoly_set B = B"

text \<open>
  \<open>fmpz_mpoly_gcd_brown_threaded\<close> returns its status and writes \<open>G\<close>.  Everything after
  the two zero tests (the bit-width test, the univariate case, the conversion and the
  modular engine \<open>fmpz_mpolyu_gcd_brown_threaded\<close> with its thread pool) is the parameter
  \<open>engine\<close>, which gets the old \<open>G\<close> and both inputs.
\<close>

definition fmpz_mpoly_gcd_brown_threaded ::
  "('e fmpz_mpoly \<Rightarrow> 'e fmpz_mpoly \<Rightarrow> 'e fmpz_mpoly \<Rightarrow> int \<times> 'e fmpz_mpoly)
     \<Rightarrow> 'e fmpz_mpoly \<Rightarrow> 'e fmpz_mpoly \<Rightarrow> 'e fmpz_mpoly \<Rightarrow> int \<times> 'e fmpz_mpoly" where
  "fmpz_mpoly_gcd_brown_threaded engine G A B =
     (if fmpz_mpoly_is_zero A then
        (if fmpz_mpoly_is_zero B then (1, fmpz_mpoly_zero)
         else if sgn (snd (B ! 0)) < 0 then (1, fmpz_mpoly_neg B)
         else (1, fmpz_mpoly_set B))
      else if fmpz_mpoly_is_zero B then
        (if sgn (snd (A ! 0)) < 0 then (1, fmpz_mpoly_neg A)
         else (1, fmpz_mpoly_set A))
      else engine G A B)"

text \<open>
  C8.  For \<open>A = 0\<close> and \<open>B\<close> nonzero (its leading coefficient is not 0, as in every
  canonical polynomial) the function returns 1 with \<open>G = B\<close> when the leading coefficient
  of \<open>B\<close> is positive and \<open>G = -B\<close> otherwise; the same with \<open>A\<close> and \<open>B\<close> exchanged; for
  \<open>A = B = 0\<close> it returns 1 with \<open>G = 0\<close>.  The result is the same for every \<open>engine\<close>:
  the modular engine is not called.
\<close>

theorem gcd_brown_zero_input:
  "(A = [] \<and> B \<noteq> [] \<and> snd (hd B) \<noteq> 0 \<longrightarrow>
      fmpz_mpoly_gcd_brown_threaded engine G A B
        = (1, if 0 < snd (hd B) then B else fmpz_mpoly_neg B))
   \<and> (B = [] \<and> A \<noteq> [] \<and> snd (hd A) \<noteq> 0 \<longrightarrow>
      fmpz_mpoly_gcd_brown_threaded engine G A B
        = (1, if 0 < snd (hd A) then A else fmpz_mpoly_neg A))
   \<and> (A = [] \<and> B = [] \<longrightarrow> fmpz_mpoly_gcd_brown_threaded engine G A B = (1, []))"
  by (cases A; cases B)
     (auto simp: fmpz_mpoly_gcd_brown_threaded_def fmpz_mpoly_is_zero_def fmpz_mpoly_zero_def
        fmpz_mpoly_set_def)

theorem gcd_brown_zero_input_witness:
  "fmpz_mpoly_gcd_brown_threaded (\<lambda>G A B. (0, G)) [] [] [(1::nat, - 7)] = (1, [(1, 7)])
   \<and> fmpz_mpoly_gcd_brown_threaded (\<lambda>G A B. (0, G)) [] [(2::nat, 3), (0, - 1)] []
       = (1, [(2, 3), (0, - 1)])
   \<and> fmpz_mpoly_gcd_brown_threaded (\<lambda>G A B. (0, G)) [] [] ([] :: nat fmpz_mpoly) = (1, [])"
  using gcd_brown_zero_input [of "[]" "[(1::nat, - 7)]" "\<lambda>G A B. (0, G)" "[]"]
    gcd_brown_zero_input [of "[(2::nat, 3), (0, - 1)]" "[]" "\<lambda>G A B. (0, G)" "[]"]
    gcd_brown_zero_input [of "[]" "[] :: nat fmpz_mpoly" "\<lambda>G A B. (0, G)" "[]"]
  by (simp add: fmpz_mpoly_neg_def)

section \<open>The split point of \<open>_push_prog\<close>\<close>

text \<open>
  The rebalancing as the specification words it: "while the left total bits < right total
  bits AND perm[mid].bits < (right - left), move perm[mid] to the left side and advance
  mid".  The list holds the bit counts of \<open>perm[mid], ..., perm[stop - 1]\<close>, the right
  side; there is no test of \<open>mid\<close> against \<open>stop\<close>, as the source has.
\<close>

fun rebalance_spec :: "nat \<Rightarrow> 64 word \<Rightarrow> 64 word \<Rightarrow> 64 word list \<Rightarrow> nat" where
  "rebalance_spec mid lefttot righttot [] = mid"
| "rebalance_spec mid lefttot righttot (d # ds) =
     (if lefttot < righttot \<and> d < righttot - lefttot
      then rebalance_spec (mid + 1) (lefttot + d) (righttot - d) ds
      else mid)"

definition split_point_spec :: "index_deg_pair list \<Rightarrow> nat \<Rightarrow> nat \<Rightarrow> nat" where
  "split_point_spec perm start stop =
     (let mid = start + (stop - start) div 2
      in rebalance_spec mid (degree_sum perm start mid) (degree_sum perm mid stop)
           (map (\<lambda>k. degree (perm ! k)) [mid..<stop]))"

lemma degree_sum_step:
  "mid < stop \<Longrightarrow>
   degree_sum perm mid stop = degree (perm ! mid) + degree_sum perm (mid + 1) stop"
  by (simp add: degree_sum_def upt_conv_Cons)

text \<open>
  The source's extra test \<open>mid + 1 < stop\<close> never decides: when \<open>perm[mid]\<close> is the last
  entry of the right side, \<open>righttot\<close> is its bit count and the third test fails, in
  unsigned 64-bit arithmetic as well.
\<close>

lemma balance_is_spec:
  "mid < stop \<Longrightarrow> r = degree_sum perm mid stop \<Longrightarrow>
   balance perm stop mid l r = rebalance_spec mid l r (map (\<lambda>k. degree (perm ! k)) [mid..<stop])"
proof (induction perm stop mid l r rule: balance.induct)
  case (1 perm stop mid lefttot righttot)
  let ?d = "degree (perm ! mid)"
  have up: "[mid..<stop] = mid # [mid + 1..<stop]" using 1(2) by (simp add: upt_conv_Cons)
  show ?case
  proof (cases "mid + 1 < stop")
    case True
    have r': "righttot - ?d = degree_sum perm (mid + 1) stop"
      using degree_sum_step [OF 1(2), of perm] 1(3) by simp
    show ?thesis
    proof (cases "lefttot < righttot \<and> ?d < righttot - lefttot")
      case c: True
      with True 1(1) r' show ?thesis
        by (subst balance.simps) (simp add: up)
    next
      case False
      then show ?thesis by (subst balance.simps) (auto simp add: up)
    qed
  next
    case False
    with 1(2) have e: "stop = mid + 1" by simp
    have r: "righttot = ?d" using 1(3) by (simp add: e degree_sum_def)
    have "\<not> (lefttot < righttot \<and> ?d < righttot - lefttot)"
    proof
      assume a: "lefttot < righttot \<and> ?d < righttot - lefttot"
      then have "lefttot \<le> righttot" by auto
      then have "righttot - lefttot \<le> righttot" by (rule word_sub_le)
      with a r show False by (metis leD)
    qed
    then show ?thesis using False by (subst balance.simps) (auto simp add: up)
  qed
qed

text \<open>
  C7.  For a range \<open>[start, stop)\<close> of at least two moduli, the split point that
  \<open>_push_prog\<close> chooses is the one the described procedure gives: start from
  \<open>mid = start + (stop - start) / 2\<close> and, while the left total is less than the right
  total and the bit count of \<open>perm[mid]\<close> is less than their difference, move \<open>perm[mid]\<close>
  to the left and advance \<open>mid\<close>.  Both sides of the split are nonempty.
\<close>

theorem split_point_refines_spec:
  assumes "start + 1 < stop"
  shows "split_point perm start stop = split_point_spec perm start stop
         \<and> start < split_point perm start stop \<and> split_point perm start stop < stop"
proof -
  have "start + (stop - start) div 2 < stop" using assms by auto
  then have "split_point perm start stop = split_point_spec perm start stop"
    by (simp add: split_point_def split_point_spec_def Let_def balance_is_spec)
  with split_point_bounds [OF assms, of perm] show ?thesis by simp
qed

theorem split_point_refines_spec_witness:
  "split_point (map (\<lambda>d. \<lparr>idx = 0, degree = d\<rparr>) [1, 1, 1, 1, 2, 3, 50]) 0 7 = 6
   \<and> split_point_spec (map (\<lambda>d. \<lparr>idx = 0, degree = d\<rparr>) [1, 1, 1, 1, 2, 3, 50]) 0 7 = 6"
proof -
  have h: "(0::nat) + 1 < 7" by simp
  have v: "split_point (map (\<lambda>d. \<lparr>idx = 0, degree = d\<rparr>) [1, 1, 1, 1, 2, 3, 50]) 0 7 = 6"
    by code_simp
  show ?thesis
    using split_point_refines_spec [OF h, of "map (\<lambda>d. \<lparr>idx = 0, degree = d\<rparr>) [1, 1, 1, 1, 2, 3, 50]"] v
    by simp
qed

section \<open>The thread-budget divider \<open>_divide_master_threads\<close>\<close>

text \<open>
  A rational \<open>fmpq\<close> is its numerator and denominator, kept in lowest terms with a
  positive denominator.
\<close>

record fmpq =
  num :: int
  den :: int

text \<open>
  Modelled from the spec: the word gcd and the rational helpers are not part of the sources
  at hand.  \<open>fmpq_set_si p q\<close> is \<open>p/q\<close> in lowest terms.
\<close>

definition n_gcd :: "int \<Rightarrow> int \<Rightarrow> int" where
  "n_gcd n m = gcd n m"

definition fmpq_set_si :: "int \<Rightarrow> int \<Rightarrow> fmpq" where
  "fmpq_set_si p q = \<lparr>num = p div gcd p q, den = q div gcd p q\<rparr>"

text \<open>
  Modelled from the spec: \<open>fmpq_farey_neighbors\<close> is not part of the sources at hand.  For
  \<open>mid = p/q\<close> in lowest terms with \<open>q \<ge> 2\<close> it gives the neighbours \<open>left = a/b < mid < c/d = right\<close>
  of \<open>mid\<close> in the Farey sequence of order \<open>q\<close>, for which \<open>mid = (a + c)/(b + d)\<close>: \<open>b\<close> is
  the inverse of \<open>p\<close> modulo \<open>q\<close> and \<open>a = (p * b - 1)/q\<close>.  The source's own example
  (\<open>n = 10\<close>, \<open>m = 16\<close>, in the comment above the function) is reproduced below.
\<close>

definition fmpq_farey_neighbors :: "fmpq \<Rightarrow> (fmpq \<times> fmpq) option" where
  "fmpq_farey_neighbors mid =
     (if den mid < 2 then None
      else case fmpz_invmod (num mid) (den mid) of
             None \<Rightarrow> None
           | Some b \<Rightarrow>
               let a = (num mid * b - 1) div den mid
               in Some (\<lparr>num = a, den = b\<rparr>, \<lparr>num = num mid - a, den = den mid - b\<rparr>))"

text \<open>
  The test \<open>fmpq_get_d(right) < score_threashold\<close> is made in double precision, with
  \<open>score_threashold = (double) n / (double) m * 1.1\<close>.  The divider takes the test as the
  parameter \<open>below\<close>; \<open>score_below n m\<close> is the same comparison in exact arithmetic.
\<close>

definition score_below :: "int \<Rightarrow> int \<Rightarrow> fmpq \<Rightarrow> bool" where
  "score_below n m r \<longleftrightarrow> 10 * m * num r < 11 * n * den r"

text \<open>The quantity that shrinks at every split (used for termination only).\<close>

definition den_weight :: "fmpq list \<Rightarrow> nat" where
  "den_weight v = sum_list (map (\<lambda>q. nat (2 * den q - 1)) v)"

lemma farey_neighbors_den:
  assumes "fmpq_farey_neighbors mid = Some (left, right)"
  shows "1 \<le> den left" and "1 \<le> den right" and "den left + den right = den mid"
proof -
  from assms have d: "2 \<le> den mid"
    by (auto simp: fmpq_farey_neighbors_def split: if_splits)
  from assms d obtain b where b: "fmpz_invmod (num mid) (den mid) = Some b"
    and l: "den left = b" and r: "den right = den mid - b"
    by (auto simp: fmpq_farey_neighbors_def Let_def split: option.splits)
  have "y \<in> set xs" if "find P xs = Some y" for P :: "int \<Rightarrow> bool" and xs y
    using that by (induction xs) (auto split: if_splits)
  from this [OF b [unfolded fmpz_invmod_def]] have "b \<in> set [0..\<bar>den mid\<bar> - 1]" .
  then have rng: "0 \<le> b" "b < den mid" using d by auto
  have "(num mid * b) mod \<bar>den mid\<bar> = 1 mod \<bar>den mid\<bar>" using b by (rule fmpz_invmod_Some)
  then have "(num mid * b) mod den mid = 1" using d by simp
  then have "b \<noteq> 0" by auto
  with rng show "1 \<le> den left" "1 \<le> den right" "den left + den right = den mid"
    by (simp_all add: l r)
qed

text \<open>
  The loop of \<open>_divide_master_threads\<close>.  The vector \<open>v\<close> has room for \<open>m\<close> entries
  (\<open>_fmpq_vec_init(num_threads)\<close> in the caller) and \<open>l\<close> is the length of the list; writing
  \<open>v[l]\<close> with \<open>l = m\<close> would be out of bounds.
\<close>

function divide_loop ::
  "(fmpq \<Rightarrow> bool) \<Rightarrow> nat \<Rightarrow> fmpq list \<Rightarrow> nat \<Rightarrow> crt_error + fmpq list" where
  "divide_loop below m v i =
     (if i < length v then
        (if 2 \<le> den (v ! i) then
           (case fmpq_farey_neighbors (v ! i) of
              None \<Rightarrow> divide_loop below m v (i + 1)
            | Some (left, right) \<Rightarrow>
                if below right then
                  (if length v < m then divide_loop below m (v[i := right] @ [left]) i
                   else Inl Out_of_bounds)
                else divide_loop below m v (i + 1))
         else divide_loop below m v (i + 1))
      else Inr v)"
  by pat_completeness auto
termination
proof (relation "measure (\<lambda>(below, m, v, i). 2 * den_weight v + (length v - i))")
  show "wf (measure (\<lambda>(below, m, v, i). 2 * den_weight v + (length v - i)))" by simp
next
  fix below :: "fmpq \<Rightarrow> bool" and m :: nat and v :: "fmpq list" and i :: nat
  assume "i < length v"
  then show "((below, m, v, i + 1), below, m, v, i)
      \<in> measure (\<lambda>(below, m, v, i). 2 * den_weight v + (length v - i))"
    by simp
next
  fix below :: "fmpq \<Rightarrow> bool" and m :: nat and v :: "fmpq list" and i :: nat
  assume "i < length v"
  then show "((below, m, v, i + 1), below, m, v, i)
      \<in> measure (\<lambda>(below, m, v, i). 2 * den_weight v + (length v - i))"
    by simp
next
  fix below :: "fmpq \<Rightarrow> bool" and m :: nat and v :: "fmpq list" and i :: nat
  assume "i < length v"
  then show "((below, m, v, i + 1), below, m, v, i)
      \<in> measure (\<lambda>(below, m, v, i). 2 * den_weight v + (length v - i))"
    by simp
next
  fix below :: "fmpq \<Rightarrow> bool" and m :: nat and v :: "fmpq list" and i :: nat
    and x2 left right
  assume i: "i < length v" and d: "2 \<le> den (v ! i)"
    and f: "fmpq_farey_neighbors (v ! i) = Some x2" and x: "(left, right) = x2"
  from f x have fn: "fmpq_farey_neighbors (v ! i) = Some (left, right)" by simp
  note dn = farey_neighbors_den [OF fn]
  have w: "nat (2 * den left - 1) + nat (2 * den right - 1) + 1 = nat (2 * den (v ! i) - 1)"
    using dn by linarith
  have "den_weight (v[i := right] @ [left])
      = sum_list ((map (\<lambda>q. nat (2 * den q - 1)) v)[i := nat (2 * den right - 1)])
        + nat (2 * den left - 1)"
    by (simp add: den_weight_def map_update)
  also have "sum_list ((map (\<lambda>q. nat (2 * den q - 1)) v)[i := nat (2 * den right - 1)])
      = den_weight v + nat (2 * den right - 1) - nat (2 * den (v ! i) - 1)"
    using i by (simp add: sum_list_update den_weight_def)
  finally have e: "den_weight (v[i := right] @ [left])
      = den_weight v + nat (2 * den right - 1) - nat (2 * den (v ! i) - 1) + nat (2 * den left - 1)" .
  have "map (\<lambda>q. nat (2 * den q - 1)) v ! i \<in> set (map (\<lambda>q. nat (2 * den q - 1)) v)"
    using i by (intro nth_mem) simp
  then have "map (\<lambda>q. nat (2 * den q - 1)) v ! i \<le> den_weight v"
    unfolding den_weight_def by (rule member_le_sum_list) simp
  then have ge: "nat (2 * den (v ! i) - 1) \<le> den_weight v"
    using i by simp
  have "den_weight (v[i := right] @ [left]) + 1 = den_weight v"
    using e w ge by linarith
  then show "((below, m, v[i := right] @ [left], i), below, m, v, i)
      \<in> measure (\<lambda>(below, m, v, i). 2 * den_weight v + (length v - i))"
    using i by simp
qed

declare divide_loop.simps [simp del]

definition divide_master_threads ::
  "(fmpq \<Rightarrow> bool) \<Rightarrow> int \<Rightarrow> int \<Rightarrow> crt_error + fmpq list" where
  "divide_master_threads below n m =
     divide_loop below (nat m) (replicate (nat (n_gcd n m)) (fmpq_set_si n m)) 0"

text \<open>
  What the loop keeps true of the list of fractions: it is not empty, every numerator is
  nonnegative and every denominator positive, the numerators add up to \<open>n\<close> and the
  denominators to \<open>m\<close>.
\<close>

definition divide_inv :: "int \<Rightarrow> int \<Rightarrow> fmpq list \<Rightarrow> bool" where
  "divide_inv n m v \<longleftrightarrow>
     v \<noteq> [] \<and> (\<forall>q\<in>set v. 0 \<le> num q \<and> 1 \<le> den q)
     \<and> sum_list (map num v) = n \<and> sum_list (map den v) = m"

text \<open>The example worked out in the comment of the source.\<close>

lemma divide_master_threads_source_example:
  "divide_master_threads (score_below 10 16) 10 16
     = Inr [\<lparr>num = 2, den = 3\<rparr>, \<lparr>num = 2, den = 3\<rparr>, \<lparr>num = 2, den = 3\<rparr>,
            \<lparr>num = 2, den = 3\<rparr>, \<lparr>num = 1, den = 2\<rparr>, \<lparr>num = 1, den = 2\<rparr>]"
  by code_simp

lemma farey_neighbors_num:
  assumes "fmpq_farey_neighbors mid = Some (left, right)"
  shows "num left + num right = num mid"
  using assms by (auto simp: fmpq_farey_neighbors_def Let_def split: if_splits option.splits)

lemma sum_list_update_int:
  fixes xs :: "int list"
  assumes "i < length xs"
  shows "sum_list (xs[i := x]) = sum_list xs + x - xs ! i"
  using assms
proof (induction xs arbitrary: i)
  case Nil
  then show ?case by simp
next
  case (Cons a xs)
  then show ?case by (cases i) simp_all
qed

lemma length_le_sum_list:
  fixes xs :: "int list"
  assumes "\<forall>x\<in>set xs. 1 \<le> x"
  shows "int (length xs) \<le> sum_list xs"
  using assms by (induction xs) auto

lemma farey_neighbors_num_nonneg:
  assumes "fmpq_farey_neighbors mid = Some (left, right)" and "0 \<le> num mid"
  shows "0 \<le> num left" and "0 \<le> num right"
proof -
  from assms have d: "2 \<le> den mid"
    by (auto simp: fmpq_farey_neighbors_def split: if_splits)
  from assms d obtain b where b: "fmpz_invmod (num mid) (den mid) = Some b"
    and l: "num left = (num mid * b - 1) div den mid"
    and r: "num right = num mid - (num mid * b - 1) div den mid"
    and dl: "den left = b"
    by (auto simp: fmpq_farey_neighbors_def Let_def split: option.splits)
  note dn = farey_neighbors_den [OF assms(1)]
  from dn dl have b1: "1 \<le> b" "b < den mid" by simp_all
  have "(num mid * b) mod \<bar>den mid\<bar> = 1 mod \<bar>den mid\<bar>" using b by (rule fmpz_invmod_Some)
  then have "(num mid * b) mod den mid = 1" using d by simp
  then have "num mid \<noteq> 0" by auto
  with assms(2) have p: "1 \<le> num mid" by simp
  with b1 have "1 * 1 \<le> num mid * b" by (intro mult_mono) simp_all
  then have "1 \<le> num mid * b" by simp
  then show "0 \<le> num left" using d by (simp add: l pos_imp_zdiv_nonneg_iff)
  have "num mid * b \<le> num mid * den mid"
    using p b1 by (intro mult_left_mono) simp_all
  then have "num mid * b - 1 \<le> num mid * den mid" by simp
  then have "(num mid * b - 1) div den mid \<le> (num mid * den mid) div den mid"
    using d by (intro zdiv_mono1) simp_all
  then show "0 \<le> num right" using d by (simp add: r)
qed

lemma divide_inv_length:
  assumes "divide_inv n m v" and "i < length v" and "2 \<le> den (v ! i)"
  shows "int (length v) < m"
proof -
  from assms(1) have d: "\<forall>q\<in>set v. 1 \<le> den q" and s: "sum_list (map den v) = m"
    by (simp_all add: divide_inv_def)
  have e: "sum_list ((map den v)[i := 1]) = sum_list (map den v) + 1 - den (v ! i)"
    using assms(2) by (simp add: sum_list_update_int)
  have "set ((map den v)[i := 1]) \<subseteq> insert 1 (set (map den v))"
    by (rule set_update_subset_insert)
  with d have "\<forall>x\<in>set ((map den v)[i := 1]). 1 \<le> x" by auto
  then have "int (length ((map den v)[i := 1])) \<le> sum_list ((map den v)[i := 1])"
    by (rule length_le_sum_list)
  then show ?thesis using e assms(3) s by simp
qed

lemma divide_inv_split:
  assumes "divide_inv n m v" and "i < length v"
    and "fmpq_farey_neighbors (v ! i) = Some (left, right)"
  shows "divide_inv n m (v[i := right] @ [left])"
proof -
  note dn = farey_neighbors_den [OF assms(3)] and nn = farey_neighbors_num [OF assms(3)]
  from assms(1) have d: "\<forall>q\<in>set v. 0 \<le> num q \<and> 1 \<le> den q"
    and sd: "sum_list (map den v) = m" and sn: "sum_list (map num v) = n"
    by (simp_all add: divide_inv_def)
  from d assms(2) have "0 \<le> num (v ! i)" by simp
  note nz = farey_neighbors_num_nonneg [OF assms(3) this]
  have "set (v[i := right]) \<subseteq> insert right (set v)"
    by (rule set_update_subset_insert)
  with d dn(1,2) nz have "\<forall>q\<in>set (v[i := right] @ [left]). 0 \<le> num q \<and> 1 \<le> den q"
    by auto
  moreover have "sum_list (map num (v[i := right] @ [left])) = n"
    using assms(2) nn sn by (simp add: map_update sum_list_update_int)
  moreover have "sum_list (map den (v[i := right] @ [left])) = m"
    using assms(2) dn(3) sd by (simp add: map_update sum_list_update_int)
  ultimately show ?thesis by (simp add: divide_inv_def)
qed

lemma divide_loop_sums:
  "divide_inv n (int m) v \<Longrightarrow> \<exists>w. divide_loop below m v i = Inr w \<and> divide_inv n (int m) w"
proof (induction below m v i rule: divide_loop.induct)
  case (1 below m v i)
  show ?case
  proof (cases "i < length v")
    case False
    then show ?thesis using "1.prems" by (subst divide_loop.simps) simp
  next
    case i: True
    show ?thesis
    proof (cases "2 \<le> den (v ! i)")
      case False
      with i "1.IH"(4) [OF i False "1.prems"] show ?thesis
        by (subst divide_loop.simps) simp
    next
      case d: True
      show ?thesis
      proof (cases "fmpq_farey_neighbors (v ! i)")
        case None
        with i d "1.IH"(1) [OF i d None "1.prems"] show ?thesis
          by (subst divide_loop.simps) simp
      next
        case (Some lr)
        obtain left right where lr: "lr = (left, right)" by (cases lr)
        show ?thesis
        proof (cases "below right")
          case False
          with i d Some lr "1.IH"(3) [OF i d Some lr [symmetric] False "1.prems"] show ?thesis
            by (subst divide_loop.simps) simp
        next
          case b: True
          from divide_inv_length [OF "1.prems" i d] have lm: "length v < m" by simp
          from Some lr have fn: "fmpq_farey_neighbors (v ! i) = Some (left, right)" by simp
          note inv' = divide_inv_split [OF "1.prems" i fn]
          from i d Some lr b lm "1.IH"(2) [OF i d Some lr [symmetric] b lm inv'] show ?thesis
            by (subst divide_loop.simps) simp
        qed
      qed
    qed
  qed
qed

lemma divide_inv_bounds:
  assumes "divide_inv n m w"
  shows "1 \<le> length w" and "int (length w) \<le> m"
proof -
  from assms have ne: "w \<noteq> []" and d: "\<forall>q\<in>set w. 1 \<le> den q" and s: "sum_list (map den w) = m"
    by (simp_all add: divide_inv_def)
  from ne show "1 \<le> length w" by (cases w) simp_all
  from d have "\<forall>x\<in>set (map den w). 1 \<le> x" by simp
  from length_le_sum_list [OF this] s show "int (length w) \<le> m" by simp
qed

text \<open>
  For every \<open>n > 0\<close>, \<open>m > 0\<close> and every outcome of the floating-point test the function
  returns, never writes past the \<open>m\<close> entries of \<open>v\<close>, and hands back \<open>l\<close> fractions with
  \<open>1 \<le> l \<le> m\<close> whose numerators add up to \<open>n\<close> and whose denominators add up to \<open>m\<close>.
\<close>

lemma divide_master_threads_sums:
  assumes "0 < n" and "0 < m"
  shows "\<exists>v. divide_master_threads below n m = Inr v
           \<and> 1 \<le> length v \<and> int (length v) \<le> m
           \<and> sum_list (map num v) = n \<and> sum_list (map den v) = m
           \<and> (\<forall>q\<in>set v. 0 \<le> num q \<and> 1 \<le> den q)"
proof -
  let ?g = "gcd n m"
  let ?v = "replicate (nat (n_gcd n m)) (fmpq_set_si n m)"
  from assms have g: "0 < ?g" by simp
  have sl: "sum_list (replicate k x) = int k * x" for k and x :: int
    by (induction k) (simp_all add: algebra_simps)
  have gn: "?g \<le> n" and gm: "?g \<le> m" using assms by (simp_all add: zdvd_imp_le)
  have ng: "nat ?g \<noteq> 0" using g by linarith
  have q1: "0 \<le> n div ?g" using g assms by (simp add: pos_imp_zdiv_nonneg_iff)
  have q2: "1 \<le> m div ?g" using g gm by (simp add: pos_imp_zdiv_pos_iff int_one_le_iff_zero_less)
  have q3: "int (nat ?g) * (n div ?g) = n" using g by simp
  have q4: "int (nat ?g) * (m div ?g) = m" using g by simp
  have "divide_inv n m ?v"
    unfolding divide_inv_def n_gcd_def fmpq_set_si_def
    using ng q1 q2 q3 q4 by (simp add: map_replicate_const sl del: of_nat_nat)
  then have "divide_inv n (int (nat m)) ?v" using assms by simp
  from divide_loop_sums [OF this, of below 0] obtain w
    where r: "divide_loop below (nat m) ?v 0 = Inr w" and inv: "divide_inv n (int (nat m)) w"
    by blast
  from inv assms have inv': "divide_inv n m w" by simp
  from inv' have "\<forall>q\<in>set w. 0 \<le> num q \<and> 1 \<le> den q"
    and "sum_list (map num w) = n" and "sum_list (map den w) = m"
    by (simp_all add: divide_inv_def)
  with r divide_inv_bounds [OF inv'] show ?thesis
    by (simp add: divide_master_threads_def)
qed

text \<open>
  C5 claims \<open>1 \<le> l \<le> min n m\<close> for the number \<open>l\<close> of fractions, as does the comment of the
  source.  For \<open>n = 1\<close> and \<open>m = 12\<close> the function returns the two fractions \<open>1/11\<close> and
  \<open>0/1\<close>, whatever the floating-point test is, as long as it finds \<open>1/11\<close> below the
  threshold \<open>1.1/12\<close> and \<open>1/10\<close> not below it (which the double comparison does: \<open>0.0909\<close>,
  \<open>0.0917\<close> and \<open>0.1\<close> are far apart).  So \<open>l = 2 > min n m = 1\<close>, and the second master is
  given no image to compute.
\<close>

theorem divide_master_threads_1_12:
  assumes "below \<lparr>num = 1, den = 11\<rparr>" and "\<not> below \<lparr>num = 1, den = 10\<rparr>"
  shows "divide_master_threads below 1 12 = Inr [\<lparr>num = 1, den = 11\<rparr>, \<lparr>num = 0, den = 1\<rparr>]"
proof -
  have init: "replicate (nat (n_gcd 1 12)) (fmpq_set_si 1 12) = [\<lparr>num = 1, den = 12\<rparr>]"
    by code_simp
  have f1: "fmpq_farey_neighbors \<lparr>num = 1, den = 12\<rparr>
              = Some (\<lparr>num = 0, den = 1\<rparr>, \<lparr>num = 1, den = 11\<rparr>)"
    by code_simp
  have f2: "fmpq_farey_neighbors \<lparr>num = 1, den = 11\<rparr>
              = Some (\<lparr>num = 0, den = 1\<rparr>, \<lparr>num = 1, den = 10\<rparr>)"
    by code_simp
  have s3: "divide_loop below 12 [\<lparr>num = 1, den = 11\<rparr>, \<lparr>num = 0, den = 1\<rparr>] (Suc (Suc 0))
              = Inr [\<lparr>num = 1, den = 11\<rparr>, \<lparr>num = 0, den = 1\<rparr>]"
    by (subst divide_loop.simps) simp
  have s2: "divide_loop below 12 [\<lparr>num = 1, den = 11\<rparr>, \<lparr>num = 0, den = 1\<rparr>] (Suc 0)
              = Inr [\<lparr>num = 1, den = 11\<rparr>, \<lparr>num = 0, den = 1\<rparr>]"
    by (subst divide_loop.simps) (simp add: s3)
  have s1: "divide_loop below 12 [\<lparr>num = 1, den = 11\<rparr>, \<lparr>num = 0, den = 1\<rparr>] 0
              = Inr [\<lparr>num = 1, den = 11\<rparr>, \<lparr>num = 0, den = 1\<rparr>]"
    using assms(2) by (subst divide_loop.simps) (simp add: f2 s2)
  have s0: "divide_loop below 12 [\<lparr>num = 1, den = 12\<rparr>] 0
              = Inr [\<lparr>num = 1, den = 11\<rparr>, \<lparr>num = 0, den = 1\<rparr>]"
    using assms(1) by (subst divide_loop.simps) (simp add: f1 s1)
  show ?thesis by (simp add: divide_master_threads_def init s0)
qed

theorem divide_master_threads_1_12_exact:
  "score_below 1 12 \<lparr>num = 1, den = 11\<rparr> \<and> \<not> score_below 1 12 \<lparr>num = 1, den = 10\<rparr>
   \<and> divide_master_threads (score_below 1 12) 1 12
       = Inr [\<lparr>num = 1, den = 11\<rparr>, \<lparr>num = 0, den = 1\<rparr>]
   \<and> \<not> length [\<lparr>num = 1, den = 11\<rparr>, \<lparr>num = 0, den = 1\<rparr>] \<le> min (1::nat) 12"
proof -
  have a: "score_below 1 12 \<lparr>num = 1, den = 11\<rparr>" by (simp add: score_below_def)
  have b: "\<not> score_below 1 12 \<lparr>num = 1, den = 10\<rparr>" by (simp add: score_below_def)
  from a b divide_master_threads_1_12 [OF a b] show ?thesis by simp
qed

section \<open>The monomial-aligned merge \<open>fmpz_mpoly_crt\<close>\<close>

text \<open>
  The local state of \<open>fmpz_mpoly_crt\<close>.  \<open>start[k]\<close> is the next unread term of \<open>B[k]\<close>;
  \<open>input[k]\<close> points either to a coefficient of \<open>B[k]\<close> (\<open>Some\<close> of its value) or to the
  shared \<open>zero\<close> (\<open>None\<close>), and the source tells the two apart by the pointer, not by the
  value; the scratch array \<open>output\<close> of the CRT runner is the field \<open>output'\<close>.  The storage
  of the result \<open>A\<close> is the pair of arrays \<open>Aexps\<close> and \<open>Acoeffs\<close>, given as functions of the
  index because \<open>fmpz_mpoly_fit_length\<close> makes room as needed; whatever \<open>A\<close> held before is
  still there.

  Modelled from the spec: the monomial comparison \<open>mpoly_monomial_cmp_nomask\<close> is not part
  of the sources at hand.  Exponent vectors are the elements of a linear order, compared by
  \<open><\<close> and \<open>=\<close>.
\<close>

record 'e crt_merge_state =
  start :: "nat list"
  input :: "int option list"
  output' :: "int list"
  Ai :: nat
  Aexps :: "nat \<Rightarrow> 'e"
  Acoeffs :: "nat \<Rightarrow> int"
  Amax :: int
  Asum :: int








































end
